theory Spec2Isabelle
  imports Complex_Main
begin

section \<open>Strings and branch labels\<close>

text \<open>
  Identifiers and labels are JavaScript strings; they are modelled as \<open>string\<close>, read as
  the UTF-8 bytes of the text. \<open>toLowerCase\<close> is modelled on the ASCII letters. The code
  only ever compares a lower-cased label with the literals \<open>yes\<close> and \<open>no\<close>, and no
  character outside ASCII lower-cases to one of the letters y, e, s, n, o, so the
  comparison has the same outcome as in the source.
\<close>

definition toLowerChar :: "char \<Rightarrow> char" where
  "toLowerChar c =
     (case map_of (zip ''ABCDEFGHIJKLMNOPQRSTUVWXYZ'' ''abcdefghijklmnopqrstuvwxyz'') c of
        None \<Rightarrow> c
      | Some l \<Rightarrow> l)"

definition toLowerCase :: "string \<Rightarrow> string" where
  "toLowerCase s = map toLowerChar s"

datatype branch = Yes | No

fun branch_name :: "branch \<Rightarrow> string" where
  "branch_name Yes = ''yes''"
| "branch_name No = ''no''"

text \<open>
  The branch of a label: \<open>labelStr === 'yes' || labelStr === 'no' ? labelStr : undefined\<close>,
  where \<open>labelStr\<close> is the lower-cased label, or undefined when there is no string label.
\<close>

definition labelBranch :: "string option \<Rightarrow> branch option" where
  "labelBranch l =
     (case l of
        None \<Rightarrow> None
      | Some s \<Rightarrow>
          (let labelStr = toLowerCase s in
           if labelStr = ''yes'' then Some Yes
           else if labelStr = ''no'' then Some No
           else None))"

section \<open>The simulation hook (useSimulation.ts)\<close>

subsection \<open>React Flow nodes and edges\<close>

text \<open>
  The fields of a React Flow node and edge that the hooks read or write. A node's
  \<open>type\<close> is optional. An edge's \<open>label\<close> is a React node; the simulation looks at it
  only when \<open>typeof edge.label === 'string'\<close>, so \<open>None\<close> stands for a missing label and
  for a label that is not a string.
\<close>

record rf_node =
  rf_id :: string
  rf_type :: "string option"
  rf_position :: "real \<times> real"
  rf_data_label :: string

record rf_edge =
  rfe_id :: string
  rfe_source :: string
  rfe_target :: string
  rfe_label :: "string option"
  rfe_sourceHandle :: "string option"
  rfe_type :: string
  rfe_animated :: bool
  rfe_markerEnd :: "string \<times> string"

subsection \<open>The memoised maps\<close>

record neighbor =
  targetId :: string
  edgeId :: string
  nb_branch :: "branch option"

definition nodeTypeMap :: "rf_node list \<Rightarrow> (string \<rightharpoonup> string)" where
  "nodeTypeMap nodes =
     foldl (\<lambda>m node. m(rf_id node \<mapsto> (case rf_type node of None \<Rightarrow> ''action'' | Some t \<Rightarrow> t)))
       Map.empty nodes"

definition startNodeId :: "rf_node list \<Rightarrow> string option" where
  "startNodeId nodes =
     foldl (\<lambda>acc node. if rf_type node = Some ''start'' then Some (rf_id node) else acc)
       None nodes"

text \<open>
  The adjacency map: every node id is first mapped to the empty array, then each edge
  (after creating the entry of a source that is not a node) is pushed to the array of
  its source.
\<close>

definition neighborEntry :: "rf_edge \<Rightarrow> neighbor" where
  "neighborEntry edge =
     \<lparr> targetId = rfe_target edge, edgeId = rfe_id edge,
       nb_branch = labelBranch (rfe_label edge) \<rparr>"

definition pushNeighbor :: "(string \<rightharpoonup> neighbor list) \<Rightarrow> rf_edge \<Rightarrow> (string \<rightharpoonup> neighbor list)" where
  "pushNeighbor m edge =
     (let m1 = (if m (rfe_source edge) = None then m(rfe_source edge \<mapsto> []) else m)
      in m1(rfe_source edge \<mapsto>
              (case m1 (rfe_source edge) of None \<Rightarrow> [] | Some l \<Rightarrow> l) @ [neighborEntry edge]))"

definition adjacencyMap :: "rf_node list \<Rightarrow> rf_edge list \<Rightarrow> (string \<rightharpoonup> neighbor list)" where
  "adjacencyMap nodes edges =
     foldl pushNeighbor (foldl (\<lambda>m node. m(rf_id node \<mapsto> [])) Map.empty nodes) edges"

text \<open>\<open>adjacencyMap.get(nodeId) ?? []\<close>\<close>

definition neighborsOf :: "rf_node list \<Rightarrow> rf_edge list \<Rightarrow> string \<Rightarrow> neighbor list" where
  "neighborsOf nodes edges nodeId =
     (case adjacencyMap nodes edges nodeId of None \<Rightarrow> [] | Some l \<Rightarrow> l)"

subsection \<open>State, timers and operations\<close>

datatype status = Idle | Running | Paused | Stopped | Complete

text \<open>
  The hook's state: the four observable React state variables, and the timers. The
  source keeps one handle in \<open>timerRef\<close>, but \<open>advance\<close> and \<open>choose\<close> overwrite it
  without clearing, so the timers that are still outstanding are kept as a list:
  \<open>setTimeout\<close> appends one under a fresh handle, \<open>clearTimeout\<close> removes the one whose
  handle is in \<open>timerRef\<close>, and a timer that fires leaves the list and calls \<open>advance\<close>.
  Each operation is one transition on the state of the latest render.
\<close>

record timer =
  t_handle :: nat
  t_delay :: nat
  t_target :: string

record sim_state =
  status :: status
  activeNodeId :: "string option"
  visitedNodeIds :: "string set"
  visitedEdgeIds :: "string set"
  timerRef :: "nat option"
  pending :: "timer list"
  nextHandle :: nat

definition observable :: "sim_state \<Rightarrow> status \<times> string option \<times> string set \<times> string set" where
  "observable s = (status s, activeNodeId s, visitedNodeIds s, visitedEdgeIds s)"

definition initial :: sim_state where
  "initial = \<lparr> status = Idle, activeNodeId = None, visitedNodeIds = {}, visitedEdgeIds = {},
               timerRef = None, pending = [], nextHandle = 0 \<rparr>"

definition clearTimer :: "sim_state \<Rightarrow> sim_state" where
  "clearTimer s =
     (case timerRef s of
        None \<Rightarrow> s
      | Some h \<Rightarrow> s\<lparr> pending := filter (\<lambda>t. t_handle t \<noteq> h) (pending s), timerRef := None \<rparr>)"

text \<open>\<open>timerRef.current = setTimeout(() => advanceRef.current(target), delay)\<close>\<close>

definition setTimer :: "string \<Rightarrow> nat \<Rightarrow> sim_state \<Rightarrow> sim_state" where
  "setTimer target delay s =
     s\<lparr> pending := pending s @ [\<lparr> t_handle = nextHandle s, t_delay = delay, t_target = target \<rparr>],
        timerRef := Some (nextHandle s),
        nextHandle := Suc (nextHandle s) \<rparr>"

definition reset :: "sim_state \<Rightarrow> sim_state" where
  "reset s =
     (clearTimer s)\<lparr> status := Idle, activeNodeId := None,
                     visitedNodeIds := {}, visitedEdgeIds := {} \<rparr>"

text \<open>\<open>nodeTypeMap.get(nodeId) ?? 'action'\<close>\<close>

definition nodeTypeOf :: "rf_node list \<Rightarrow> string \<Rightarrow> string" where
  "nodeTypeOf nodes nodeId =
     (case nodeTypeMap nodes nodeId of None \<Rightarrow> ''action'' | Some t \<Rightarrow> t)"

definition advance :: "rf_node list \<Rightarrow> rf_edge list \<Rightarrow> string \<Rightarrow> sim_state \<Rightarrow> sim_state" where
  "advance nodes edges nodeId s =
     (let nodeType = nodeTypeOf nodes nodeId;
          s1 = s\<lparr> activeNodeId := Some nodeId,
                  visitedNodeIds := insert nodeId (visitedNodeIds s) \<rparr>
      in if nodeType = ''end'' then s1\<lparr> status := Complete \<rparr>
         else if nodeType = ''condition'' then s1\<lparr> status := Paused \<rparr>
         else
           (case neighborsOf nodes edges nodeId of
              [] \<Rightarrow> s1\<lparr> status := Complete \<rparr>
            | next # _ \<Rightarrow>
                setTimer (targetId next) 800
                  (s1\<lparr> status := Running,
                       visitedEdgeIds := insert (edgeId next) (visitedEdgeIds s1) \<rparr>)))"

text \<open>
  \<open>if (!startNodeId) return\<close> leaves both when there is no start node and when the
  start node's id is the empty string.
\<close>

definition start :: "rf_node list \<Rightarrow> sim_state \<Rightarrow> sim_state" where
  "start nodes s =
     (let s1 = (clearTimer s)\<lparr> status := Running, activeNodeId := None,
                               visitedNodeIds := {}, visitedEdgeIds := {} \<rparr>
      in case startNodeId nodes of
           None \<Rightarrow> s1
         | Some sid \<Rightarrow> if sid = [] then s1 else setTimer sid 50 s1)"

definition pause :: "sim_state \<Rightarrow> sim_state" where
  "pause s = (clearTimer s)\<lparr> status := Stopped \<rparr>"

definition resume :: "rf_node list \<Rightarrow> rf_edge list \<Rightarrow> sim_state \<Rightarrow> sim_state" where
  "resume nodes edges s =
     (case activeNodeId s of None \<Rightarrow> s | Some a \<Rightarrow> advance nodes edges a s)"

definition chooseBranch :: "rf_node list \<Rightarrow> rf_edge list \<Rightarrow> branch \<Rightarrow> sim_state \<Rightarrow> sim_state" where
  "chooseBranch nodes edges b s =
     (if status s \<noteq> Paused \<or> activeNodeId s = None then s
      else
        (case activeNodeId s of
           None \<Rightarrow> s
         | Some a \<Rightarrow>
             (case find (\<lambda>n. nb_branch n = Some b) (neighborsOf nodes edges a) of
                None \<Rightarrow> s
              | Some chosen \<Rightarrow>
                  setTimer (targetId chosen) 50
                    (s\<lparr> status := Running,
                        visitedEdgeIds := insert (edgeId chosen) (visitedEdgeIds s) \<rparr>))))"

text \<open>The callback of the timer with handle \<open>h\<close> runs: it calls \<open>advance\<close> on its target.\<close>

definition fire :: "rf_node list \<Rightarrow> rf_edge list \<Rightarrow> nat \<Rightarrow> sim_state \<Rightarrow> sim_state" where
  "fire nodes edges h s =
     (case find (\<lambda>t. t_handle t = h) (pending s) of
        None \<Rightarrow> s
      | Some t \<Rightarrow>
          advance nodes edges (t_target t)
            (s\<lparr> pending := filter (\<lambda>t. t_handle t \<noteq> h) (pending s) \<rparr>))"

text \<open>
  Every timer that is outstanding got its handle from \<open>setTimeout\<close> before the next
  handle was drawn.
\<close>

definition handlesFresh :: "sim_state \<Rightarrow> bool" where
  "handlesFresh s = list_all (\<lambda>t. t_handle t < nextHandle s) (pending s)"

section \<open>The layout hook (useFlowGenerator.ts)\<close>

subsection \<open>The flow graph\<close>

datatype node_type = Start | End | Action | Condition

fun type_name :: "node_type \<Rightarrow> string" where
  "type_name Start = ''start''"
| "type_name End = ''end''"
| "type_name Action = ''action''"
| "type_name Condition = ''condition''"

record flow_node =
  node_id :: string
  node_label :: string
  node_type :: node_type

record flow_edge =
  edge_from :: string
  edge_to :: string
  edge_label :: "string option"

record flow_graph =
  graph_nodes :: "flow_node list"
  graph_edges :: "flow_edge list"

datatype direction = TB | LR

datatype error = TypeError

text \<open>
  Coordinates are JavaScript numbers, that is IEEE doubles. A finite double is a real
  number, and the sum or difference the source computes is the exact sum or difference
  rounded to a double. The rounding is a parameter \<open>rnd\<close> of every function that
  computes with coordinates: \<open>a + b\<close> of the source is \<open>rnd (a + b)\<close>, and \<open>a - b\<close> is
  \<open>rnd (a - b)\<close>. Nothing is assumed about \<open>rnd\<close> unless a statement says so; overflow
  and NaN are left aside. A position is the pair \<open>(x, y)\<close>. The position table is a plain
  object keyed by node id, modelled as a partial map; a lookup of an id that was never
  stored yields undefined (ids that name a property of \<open>Object.prototype\<close> are left
  aside).
\<close>

type_synonym rounding = "real \<Rightarrow> real"
type_synonym position = "real \<times> real"
type_synonym positions = "string \<rightharpoonup> position"

text \<open>
  IEEE rounding leaves every integer of magnitude up to \<open>2^53\<close> as it is. \<open>noRounding\<close> is
  the rounding that changes nothing; on tables of such integers, whose sums and
  differences are such integers again, it computes what the source computes.
\<close>

definition exactOnIntegers :: "rounding \<Rightarrow> bool" where
  "exactOnIntegers rnd = (\<forall>k :: int. \<bar>k\<bar> \<le> 2 ^ 53 \<longrightarrow> rnd (real_of_int k) = real_of_int k)"

definition noRounding :: rounding where
  "noRounding x = x"

definition getNodeSize :: "node_type \<Rightarrow> real \<times> real" where
  "getNodeSize t = (if t = Condition then (120, 120) else (180, 60))"

text \<open>\<open>edge.label?.toLowerCase()\<close>\<close>

definition lowerLabel :: "flow_edge \<Rightarrow> string option" where
  "lowerLabel e = map_option toLowerCase (edge_label e)"

subsection \<open>getSubtree\<close>

text \<open>
  The breadth-first search of \<open>getSubtree\<close>: \<open>visited\<close> is the insertion-ordered set,
  \<open>queue\<close> the work list. One equation per loop iteration.
\<close>

definition successors :: "flow_graph \<Rightarrow> string \<Rightarrow> string list" where
  "successors g i = map edge_to (filter (\<lambda>edge. edge_from edge = i) (graph_edges g))"

function bfs :: "flow_graph \<Rightarrow> string \<Rightarrow> string list \<Rightarrow> string list \<Rightarrow> string list" where
  "bfs g excludeId visited [] = visited"
| "bfs g excludeId visited (i # queue) =
     (if i \<in> set visited \<or> i = excludeId then bfs g excludeId visited queue
      else bfs g excludeId (visited @ [i]) (queue @ successors g i))"
  by pat_completeness auto
termination
proof (relation
    "(\<lambda>(g, x, vis, q). card ((set q \<union> set (map edge_to (graph_edges g))) - set vis))
       <*mlex*> measure (\<lambda>(g, x, vis, q). length q)")
  show "wf ((\<lambda>(g, x, vis, q). card ((set q \<union> set (map edge_to (graph_edges g))) - set vis))
       <*mlex*> measure (\<lambda>(g, x, vis, q). length q))"
    by (simp add: wf_mlex)
next
  fix g :: flow_graph and excludeId :: string and visited i queue
  assume "i \<in> set visited \<or> i = excludeId"
  have "(set queue \<union> set (map edge_to (graph_edges g))) - set visited
        \<subseteq> (set (i # queue) \<union> set (map edge_to (graph_edges g))) - set visited"
    by auto
  then have "card ((set queue \<union> set (map edge_to (graph_edges g))) - set visited)
        \<le> card ((set (i # queue) \<union> set (map edge_to (graph_edges g))) - set visited)"
    by (intro card_mono) auto
  then show "((g, excludeId, visited, queue), (g, excludeId, visited, i # queue))
        \<in> (\<lambda>(g, x, vis, q). card ((set q \<union> set (map edge_to (graph_edges g))) - set vis))
           <*mlex*> measure (\<lambda>(g, x, vis, q). length q)"
    by (auto simp: mlex_iff le_less)
next
  fix g :: flow_graph and excludeId :: string and visited i queue
  assume "\<not> (i \<in> set visited \<or> i = excludeId)"
  then have fresh: "i \<notin> set visited" by simp
  have "(set (queue @ successors g i) \<union> set (map edge_to (graph_edges g))) - set (visited @ [i])
        \<subset> (set (i # queue) \<union> set (map edge_to (graph_edges g))) - set visited"
    using fresh by (auto simp: successors_def)
  then have "card ((set (queue @ successors g i) \<union> set (map edge_to (graph_edges g))) - set (visited @ [i]))
        < card ((set (i # queue) \<union> set (map edge_to (graph_edges g))) - set visited)"
    by (intro psubset_card_mono) auto
  then show "((g, excludeId, visited @ [i], queue @ successors g i), (g, excludeId, visited, i # queue))
        \<in> (\<lambda>(g, x, vis, q). card ((set q \<union> set (map edge_to (graph_edges g))) - set vis))
           <*mlex*> measure (\<lambda>(g, x, vis, q). length q)"
    by (simp add: mlex_iff)
qed

definition getSubtree :: "flow_graph \<Rightarrow> string \<Rightarrow> string \<Rightarrow> string list" where
  "getSubtree g startId excludeId = bfs g excludeId [] [startId]"

subsection \<open>enforceYesOnRight\<close>

text \<open>\<open>position[axis]\<close> and \<open>{ ...position, [axis]: v }\<close>, with \<open>axis\<close> x for TB and y for LR.\<close>

definition coord :: "direction \<Rightarrow> position \<Rightarrow> real" where
  "coord d p = (if d = TB then fst p else snd p)"

definition withCoord :: "direction \<Rightarrow> position \<Rightarrow> real \<Rightarrow> position" where
  "withCoord d p v = (if d = TB then (v, snd p) else (fst p, v))"

definition yesIsCorrect :: "direction \<Rightarrow> position \<Rightarrow> position \<Rightarrow> bool" where
  "yesIsCorrect d yesRoot noRoot =
     (if d = TB then fst yesRoot \<ge> fst noRoot else snd yesRoot \<le> snd noRoot)"

text \<open>
  The loop that removes the convergence nodes from both sets. It walks the yes-set and
  deletes the current id from both sets when the no-set has it; deleting the current
  element of a JavaScript \<open>Set\<close> does not disturb the iteration over the others.
\<close>

definition removeShared :: "string list \<Rightarrow> string list \<Rightarrow> string list \<times> string list" where
  "removeShared yesSubtree noSubtree =
     foldl (\<lambda>(ys, ns) i. if i \<in> set ns then (removeAll i ys, removeAll i ns) else (ys, ns))
       (yesSubtree, noSubtree) yesSubtree"

text \<open>
  The translation loop: \<open>positions[id][axis]\<close> throws a TypeError when \<open>positions\<close>
  has no entry for \<open>id\<close>. The yes loop adds \<open>delta\<close>, the no loop subtracts it; a
  subtraction is the addition of the negated number, so the no loop is the same loop
  with \<open>- delta\<close>.
\<close>

definition shift :: "rounding \<Rightarrow> direction \<Rightarrow> real \<Rightarrow> position \<Rightarrow> position" where
  "shift rnd d delta p = withCoord d p (rnd (coord d p + delta))"

fun translate ::
  "rounding \<Rightarrow> direction \<Rightarrow> real \<Rightarrow> string list \<Rightarrow> positions \<Rightarrow> error + positions" where
  "translate rnd d delta [] P = Inr P"
| "translate rnd d delta (i # ids) P =
     (case P i of
        None \<Rightarrow> Inl TypeError
      | Some p \<Rightarrow> translate rnd d delta ids (P(i \<mapsto> shift rnd d delta p)))"

text \<open>
  \<open>outEdges\<close>, \<open>yesEdge\<close> and \<open>noEdge\<close> of a node: the first outgoing edge whose
  lower-cased label is \<open>yes\<close>, and the first whose lower-cased label is \<open>no\<close>.
\<close>

definition outEdges :: "flow_graph \<Rightarrow> flow_node \<Rightarrow> flow_edge list" where
  "outEdges g node = filter (\<lambda>e. edge_from e = node_id node) (graph_edges g)"

definition yesEdge :: "flow_graph \<Rightarrow> flow_node \<Rightarrow> flow_edge option" where
  "yesEdge g node = find (\<lambda>e. lowerLabel e = Some ''yes'') (outEdges g node)"

definition noEdge :: "flow_graph \<Rightarrow> flow_node \<Rightarrow> flow_edge option" where
  "noEdge g node = find (\<lambda>e. lowerLabel e = Some ''no'') (outEdges g node)"

text \<open>The body of the loop over the nodes, for one node.\<close>

definition enforceStep ::
  "rounding \<Rightarrow> flow_graph \<Rightarrow> direction \<Rightarrow> positions \<Rightarrow> flow_node \<Rightarrow> error + positions" where
  "enforceStep rnd g d P node =
     (if node_type node \<noteq> Condition then Inr P
      else
        (case (yesEdge g node, noEdge g node) of
           (Some ye, Some ne) \<Rightarrow>
             (case (P (edge_to ye), P (edge_to ne)) of
                (Some yesRoot, Some noRoot) \<Rightarrow>
                  if yesIsCorrect d yesRoot noRoot then Inr P
                  else
                    (let (yesSubtree, noSubtree) =
                           removeShared (getSubtree g (edge_to ye) (node_id node))
                                        (getSubtree g (edge_to ne) (node_id node));
                         delta = rnd (coord d noRoot - coord d yesRoot)
                     in case translate rnd d delta yesSubtree P of
                          Inl err \<Rightarrow> Inl err
                        | Inr P1 \<Rightarrow> translate rnd d (- delta) noSubtree P1)
              | _ \<Rightarrow> Inr P)
         | _ \<Rightarrow> Inr P))"

fun enforceNodes ::
  "rounding \<Rightarrow> flow_graph \<Rightarrow> direction \<Rightarrow> flow_node list \<Rightarrow> positions \<Rightarrow> error + positions" where
  "enforceNodes rnd g d [] P = Inr P"
| "enforceNodes rnd g d (node # rest) P =
     (case enforceStep rnd g d P node of
        Inl err \<Rightarrow> Inl err
      | Inr P1 \<Rightarrow> enforceNodes rnd g d rest P1)"

definition enforceYesOnRight ::
  "rounding \<Rightarrow> flow_graph \<Rightarrow> positions \<Rightarrow> direction \<Rightarrow> error + positions" where
  "enforceYesOnRight rnd g P d = enforceNodes rnd g d (graph_nodes g) P"

text \<open>Running the normalization on its own result, and reading one position of a result.\<close>

definition enforceTwice ::
  "rounding \<Rightarrow> flow_graph \<Rightarrow> positions \<Rightarrow> direction \<Rightarrow> error + positions" where
  "enforceTwice rnd g P d =
     (case enforceYesOnRight rnd g P d of
        Inl err \<Rightarrow> Inl err
      | Inr P1 \<Rightarrow> enforceYesOnRight rnd g P1 d)"

definition positionOf :: "error + positions \<Rightarrow> string \<Rightarrow> position option" where
  "positionOf r i = (case r of Inl err \<Rightarrow> None | Inr P \<Rightarrow> P i)"

text \<open>
  The two sets of node ids that the step of a condition node translates when its yes
  root is on the wrong side: the yes set and the no set, without the convergence nodes.
\<close>

definition movedSets :: "flow_graph \<Rightarrow> flow_node \<Rightarrow> string list \<times> string list" where
  "movedSets g node =
     (if node_type node \<noteq> Condition then ([], [])
      else
        (case (yesEdge g node, noEdge g node) of
           (Some ye, Some ne) \<Rightarrow>
             removeShared (getSubtree g (edge_to ye) (node_id node))
                          (getSubtree g (edge_to ne) (node_id node))
         | _ \<Rightarrow> ([], [])))"

text \<open>
  The words of the comment on \<open>getSubtree\<close>, as a relation: the node ids reachable from
  \<open>startId\<close> along edges, without passing through \<open>excludeId\<close>.
\<close>

definition branchStep :: "flow_graph \<Rightarrow> string \<Rightarrow> (string \<times> string) set" where
  "branchStep g excludeId = {(a, b). b \<in> set (successors g a) \<and> a \<noteq> excludeId \<and> b \<noteq> excludeId}"

definition reachableAvoiding :: "flow_graph \<Rightarrow> string \<Rightarrow> string \<Rightarrow> string set" where
  "reachableAvoiding g startId excludeId =
     (if startId = excludeId then {} else (branchStep g excludeId)\<^sup>* `` {startId})"

subsection \<open>computeLayout\<close>

text \<open>
  The dagre library is not part of the repository: its layout is a parameter, a
  function from the rank direction, the nodes with their sizes and the weighted edges to
  the centre it assigns to each node id. The source hands dagre the edges sorted with
  no-edges before yes-edges; that order is only read by dagre, so it is part of the
  parameter. Half a width and half a height are 90, 60 or 30, computed without
  rounding; the subtraction from the centre is rounded.
\<close>

type_synonym dagre_layout =
  "direction \<Rightarrow> (string \<times> real \<times> real) list \<Rightarrow> (string \<times> string \<times> nat) list \<Rightarrow> string \<Rightarrow> real \<times> real"

definition computeLayout ::
  "rounding \<Rightarrow> dagre_layout \<Rightarrow> flow_node list \<Rightarrow> flow_edge list \<Rightarrow> direction
     \<Rightarrow> error + positions" where
  "computeLayout rnd dagre rawNodes rawEdges d =
     (let sized = map (\<lambda>node. (node_id node, getNodeSize (node_type node))) rawNodes;
          weighted = map (\<lambda>edge. (edge_from edge, edge_to edge,
                                   if lowerLabel edge = Some ''yes'' then 2 else 1)) rawEdges;
          dagreNode = dagre d sized weighted;
          positions =
            foldl (\<lambda>P node.
                     P(node_id node \<mapsto>
                         (rnd (fst (dagreNode (node_id node))
                                 - fst (getNodeSize (node_type node)) / 2),
                          rnd (snd (dagreNode (node_id node))
                                 - snd (getNodeSize (node_type node)) / 2))))
              Map.empty rawNodes
      in enforceYesOnRight rnd \<lparr> graph_nodes = rawNodes, graph_edges = rawEdges \<rparr> positions d)"

subsection \<open>buildConditionHandleMap and transformToReactFlow\<close>

text \<open>The key \<open>`${edge.from}\<rightarrow>${edge.to}`\<close>; the arrow is U+2192, three bytes in UTF-8.\<close>

definition handleKey :: "string \<Rightarrow> string \<Rightarrow> string" where
  "handleKey from to = from @ [char_of (226 :: nat), char_of (134 :: nat), char_of (146 :: nat)] @ to"

definition buildConditionHandleMap :: "flow_graph \<Rightarrow> (string \<rightharpoonup> branch)" where
  "buildConditionHandleMap g =
     foldl (\<lambda>m edge.
              if lowerLabel edge = Some ''yes'' then m(handleKey (edge_from edge) (edge_to edge) \<mapsto> Yes)
              else if lowerLabel edge = Some ''no'' then m(handleKey (edge_from edge) (edge_to edge) \<mapsto> No)
              else m)
       Map.empty (graph_edges g)"

text \<open>The decimal digits of an array index, for the edge id \<open>`e${i}`\<close>.\<close>

fun decimal :: "nat \<Rightarrow> string" where
  "decimal n =
     (if n < 10 then [char_of (48 + n)]
      else decimal (n div 10) @ [char_of (48 + n mod 10)])"

record react_flow =
  rf_nodes :: "rf_node list"
  rf_edges :: "rf_edge list"

definition toReactFlowEdge ::
  "flow_graph \<Rightarrow> (string \<rightharpoonup> branch) \<Rightarrow> nat \<times> flow_edge \<Rightarrow> rf_edge" where
  "toReactFlowEdge g handleMap ie =
     (let i = fst ie; edge = snd ie;
          sourceNode = find (\<lambda>n. node_id n = edge_from edge) (graph_nodes g);
          sourceHandle =
            (case sourceNode of
               None \<Rightarrow> None
             | Some n \<Rightarrow>
                 if node_type n = Condition
                 then map_option branch_name (handleMap (handleKey (edge_from edge) (edge_to edge)))
                 else None)
      in \<lparr> rfe_id = ''e'' @ decimal i, rfe_source = edge_from edge, rfe_target = edge_to edge,
           rfe_label = edge_label edge, rfe_sourceHandle = sourceHandle,
           rfe_type = ''animated'', rfe_animated = False,
           rfe_markerEnd = (''arrowclosed'', ''#3b82f6'') \<rparr>)"

definition transformToReactFlow ::
  "rounding \<Rightarrow> dagre_layout \<Rightarrow> flow_graph \<Rightarrow> direction \<Rightarrow> error + react_flow" where
  "transformToReactFlow rnd dagre g d =
     (case computeLayout rnd dagre (graph_nodes g) (graph_edges g) d of
        Inl err \<Rightarrow> Inl err
      | Inr positions \<Rightarrow>
          (let handleMap = buildConditionHandleMap g
           in Inr \<lparr> rf_nodes =
                       map (\<lambda>node.
                              \<lparr> rf_id = node_id node, rf_type = Some (type_name (node_type node)),
                                rf_position = (case positions (node_id node) of
                                                 None \<Rightarrow> (0, 0) | Some p \<Rightarrow> p),
                                rf_data_label = node_label node \<rparr>)
                           (graph_nodes g),
                     rf_edges = map (toReactFlowEdge g handleMap) (enumerate 0 (graph_edges g)) \<rparr>))"

section \<open>Example graphs\<close>

text \<open>
  The graphs and states the theorems below are evaluated on. \<open>scenario\<close> is the flow
  \<open>start(1) \<rightarrow> action(2) \<rightarrow> condition(3) {yes \<rightarrow> end(4), no \<rightarrow> end(5)}\<close>, paused at node 3.
  \<open>dead_end\<close> has a condition node without outgoing edges; \<open>headless\<close> has no start node.
\<close>

definition rfNode :: "string \<Rightarrow> string \<Rightarrow> rf_node" where
  "rfNode i t = \<lparr> rf_id = i, rf_type = Some t, rf_position = (0, 0), rf_data_label = [] \<rparr>"

definition rfEdge :: "string \<Rightarrow> string \<Rightarrow> string \<Rightarrow> string option \<Rightarrow> rf_edge" where
  "rfEdge i src tgt l =
     \<lparr> rfe_id = i, rfe_source = src, rfe_target = tgt, rfe_label = l, rfe_sourceHandle = None,
       rfe_type = ''animated'', rfe_animated = False, rfe_markerEnd = (''arrowclosed'', ''#3b82f6'') \<rparr>"

definition scenario_nodes :: "rf_node list" where
  "scenario_nodes = [rfNode ''1'' ''start'', rfNode ''2'' ''action'', rfNode ''3'' ''condition'',
                     rfNode ''4'' ''end'', rfNode ''5'' ''end'']"

definition scenario_edges :: "rf_edge list" where
  "scenario_edges = [rfEdge ''e0'' ''1'' ''2'' None, rfEdge ''e1'' ''2'' ''3'' None,
                     rfEdge ''e2'' ''3'' ''4'' (Some ''Yes''), rfEdge ''e3'' ''3'' ''5'' (Some ''No'')]"

definition scenario_paused :: sim_state where
  "scenario_paused = \<lparr> status = Paused, activeNodeId = Some ''3'', visitedNodeIds = {''1'', ''2'', ''3''},
      visitedEdgeIds = {''e0'', ''e1''}, timerRef = Some 2, pending = [], nextHandle = 3 \<rparr>"

definition dead_end_nodes :: "rf_node list" where
  "dead_end_nodes = [rfNode ''1'' ''start'', rfNode ''2'' ''condition'', rfNode ''3'' ''end'']"

definition dead_end_edges :: "rf_edge list" where
  "dead_end_edges = [rfEdge ''e0'' ''1'' ''2'' None, rfEdge ''e1'' ''1'' ''3'' None]"

definition headless_nodes :: "rf_node list" where
  "headless_nodes = [rfNode ''2'' ''action'', rfNode ''4'' ''end'']"

text \<open>
  Flow graphs and position tables for the layout. \<open>diamond\<close> has one condition node whose
  branches meet again in node 5; \<open>line\<close> is laid out in one column; in \<open>nested\<close> the yes
  branch of condition 2 holds condition 3, whose branches meet in node 6; in \<open>overlap\<close>
  node 4 is the yes target of condition 2 and the no target of condition 3; \<open>twin\<close> has a
  condition node with two edges labelled yes; \<open>retry\<close> has the cycle 2, 3, 5, 2; in
  \<open>ghost\<close> the edge from node 3 points to the id 9, which is not a node; in \<open>funnel\<close>
  the no target of condition 2, node 4, leads to its yes target, node 3, and the
  x coordinates of the two are left open.
  \<open>tableLayout\<close> stands in for dagre: it reads the centre of each node from a table.
\<close>

definition flowNode :: "string \<Rightarrow> node_type \<Rightarrow> flow_node" where
  "flowNode i t = \<lparr> node_id = i, node_label = [], node_type = t \<rparr>"

definition flowEdge :: "string \<Rightarrow> string \<Rightarrow> string option \<Rightarrow> flow_edge" where
  "flowEdge a b l = \<lparr> edge_from = a, edge_to = b, edge_label = l \<rparr>"

definition overlap_graph :: flow_graph where
  "overlap_graph =
     \<lparr> graph_nodes = [flowNode ''1'' Start, flowNode ''2'' Condition, flowNode ''3'' Condition,
                      flowNode ''4'' End, flowNode ''5'' End],
       graph_edges = [flowEdge ''1'' ''2'' None,
                      flowEdge ''2'' ''4'' (Some ''Yes''), flowEdge ''2'' ''3'' (Some ''No''),
                      flowEdge ''3'' ''5'' (Some ''Yes''), flowEdge ''3'' ''4'' (Some ''No'')] \<rparr>"

definition overlap_positions :: positions where
  "overlap_positions =
     map_of [(''1'', (150, 0)), (''2'', (180, 140)), (''3'', (120, 340)),
             (''4'', (240, 540)), (''5'', (0, 540))]"

text \<open>The same layout turned for the orientation left to right.\<close>

definition overlap_sideways :: positions where
  "overlap_sideways =
     map_of [(''1'', (0, 90)), (''2'', (140, 60)), (''3'', (340, 120)),
             (''4'', (540, 0)), (''5'', (540, 240))]"

definition line_graph :: flow_graph where
  "line_graph =
     \<lparr> graph_nodes = [flowNode ''1'' Start, flowNode ''2'' Condition, flowNode ''3'' Action,
                      flowNode ''4'' End],
       graph_edges = [flowEdge ''1'' ''2'' None,
                      flowEdge ''2'' ''3'' (Some ''Yes''), flowEdge ''2'' ''4'' (Some ''No''),
                      flowEdge ''3'' ''4'' None] \<rparr>"

definition line_positions :: positions where
  "line_positions =
     map_of [(''1'', (0, 0)), (''2'', (30, 140)), (''3'', (0, 340)), (''4'', (0, 480))]"

definition nested_graph :: flow_graph where
  "nested_graph =
     \<lparr> graph_nodes = [flowNode ''1'' Start, flowNode ''2'' Condition, flowNode ''3'' Condition,
                      flowNode ''4'' Action, flowNode ''5'' Action, flowNode ''6'' End,
                      flowNode ''7'' End],
       graph_edges = [flowEdge ''1'' ''2'' None,
                      flowEdge ''2'' ''3'' (Some ''Yes''), flowEdge ''2'' ''7'' (Some ''No''),
                      flowEdge ''3'' ''4'' (Some ''Yes''), flowEdge ''3'' ''5'' (Some ''No''),
                      flowEdge ''4'' ''6'' None, flowEdge ''5'' ''6'' None] \<rparr>"

definition nested_positions :: positions where
  "nested_positions =
     map_of [(''1'', (300, 0)), (''2'', (330, 140)), (''3'', (230, 340)), (''7'', (400, 340)),
             (''4'', (260, 540)), (''5'', (20, 540)), (''6'', (140, 680))]"

definition diamond_graph :: flow_graph where
  "diamond_graph =
     \<lparr> graph_nodes = [flowNode ''1'' Start, flowNode ''2'' Condition, flowNode ''3'' Action,
                      flowNode ''4'' Action, flowNode ''5'' End],
       graph_edges = [flowEdge ''1'' ''2'' None,
                      flowEdge ''2'' ''3'' (Some ''yes''), flowEdge ''2'' ''4'' (Some ''no''),
                      flowEdge ''3'' ''5'' None, flowEdge ''4'' ''5'' None] \<rparr>"

definition diamond_positions :: positions where
  "diamond_positions =
     map_of [(''1'', (120, 0)), (''2'', (150, 140)), (''3'', (0, 340)), (''4'', (240, 340)),
             (''5'', (120, 480))]"


definition retry_graph :: flow_graph where
  "retry_graph =
     \<lparr> graph_nodes = [flowNode ''1'' Start, flowNode ''7'' Condition, flowNode ''2'' Action,
                      flowNode ''3'' Condition, flowNode ''4'' End, flowNode ''5'' Action,
                      flowNode ''8'' End],
       graph_edges = [flowEdge ''1'' ''7'' None,
                      flowEdge ''7'' ''2'' (Some ''Yes''), flowEdge ''7'' ''8'' (Some ''No''),
                      flowEdge ''2'' ''3'' None,
                      flowEdge ''3'' ''4'' (Some ''Yes''), flowEdge ''3'' ''5'' (Some ''No''),
                      flowEdge ''5'' ''2'' (Some ''retry'')] \<rparr>"

definition tableLayout :: "(string \<times> real \<times> real) list \<Rightarrow> dagre_layout" where
  "tableLayout centres d sized weighted i =
     (case map_of centres i of None \<Rightarrow> (0, 0) | Some c \<Rightarrow> c)"

definition retry_centres :: "(string \<times> real \<times> real) list" where
  "retry_centres =
     [(''1'', (300, 70)), (''7'', (300, 200)), (''2'', (200, 400)), (''8'', (500, 400)),
      (''3'', (200, 560)), (''4'', (100, 740)), (''5'', (330, 740))]"

definition ghost_graph :: flow_graph where
  "ghost_graph =
     \<lparr> graph_nodes = [flowNode ''1'' Start, flowNode ''2'' Condition, flowNode ''3'' Action,
                      flowNode ''4'' End],
       graph_edges = [flowEdge ''1'' ''2'' None,
                      flowEdge ''2'' ''3'' (Some ''Yes''), flowEdge ''2'' ''4'' (Some ''No''),
                      flowEdge ''3'' ''9'' None] \<rparr>"

definition funnel_graph :: flow_graph where
  "funnel_graph =
     \<lparr> graph_nodes = [flowNode ''1'' Start, flowNode ''2'' Condition, flowNode ''3'' End,
                      flowNode ''4'' Action],
       graph_edges = [flowEdge ''1'' ''2'' None,
                      flowEdge ''2'' ''3'' (Some ''Yes''), flowEdge ''2'' ''4'' (Some ''No''),
                      flowEdge ''4'' ''3'' None] \<rparr>"

definition funnel_positions :: "real \<Rightarrow> real \<Rightarrow> positions" where
  "funnel_positions y n =
     map_of [(''1'', (60, 0)), (''2'', (90, 140)), (''3'', (y, 540)), (''4'', (n, 340))]"

definition ghost_centres :: "(string \<times> real \<times> real) list" where
  "ghost_centres =
     [(''1'', (300, 70)), (''2'', (300, 200)), (''3'', (200, 400)), (''4'', (500, 400))]"

section \<open>Properties of the simulation\<close>

subsection \<open>The adjacency map, the type map and the start node\<close>

text \<open>
  The array the adjacency map holds for a node id: the edges leaving it, in the order of
  the edge list. The entry of an edge's source always exists when the edge is pushed.
\<close>

lemma pushNeighbor_apply:
  "pushNeighbor m e k =
     (if k = rfe_source e
      then Some ((case m k of None \<Rightarrow> [] | Some l \<Rightarrow> l) @ [neighborEntry e])
      else m k)"
  by (simp add: pushNeighbor_def Let_def split: option.splits)

lemma foldl_pushNeighbor:
  "foldl pushNeighbor m es k =
     (if k \<in> rfe_source ` set es
      then Some ((case m k of None \<Rightarrow> [] | Some l \<Rightarrow> l) @ map neighborEntry (filter (\<lambda>e. rfe_source e = k) es))
      else m k)"
proof (induction es arbitrary: m)
  case Nil
  show ?case by simp
next
  case (Cons e es)
  show ?case
    apply (simp only: foldl_Cons Cons.IH)
    apply (auto simp: pushNeighbor_apply filter_empty_conv image_iff split: option.splits)
    done
qed

lemma foldl_empty_entries:
  "foldl (\<lambda>m node. m(rf_id node \<mapsto> [])) m0 ns k =
     (if k \<in> rf_id ` set ns then Some [] else m0 k)"
  by (induction ns arbitrary: m0) auto

lemma neighborsOf_eq:
  "neighborsOf ns es k = map neighborEntry (filter (\<lambda>e. rfe_source e = k) es)"
  by (auto simp: neighborsOf_def adjacencyMap_def foldl_pushNeighbor foldl_empty_entries
        filter_empty_conv image_iff split: option.splits)

lemma adjacencyMap_source_defined:
  "e \<in> set es \<Longrightarrow> adjacencyMap ns es (rfe_source e) \<noteq> None"
  by (auto simp: adjacencyMap_def foldl_pushNeighbor)

lemma startNodeId_foldl:
  "foldl (\<lambda>acc node. if rf_type node = Some ''start'' then Some (rf_id node) else acc) a ns = None
   \<longleftrightarrow> a = None \<and> (\<forall>n \<in> set ns. rf_type n \<noteq> Some ''start'')"
  by (induction ns arbitrary: a) auto

lemma startNodeId_None: "startNodeId ns = None \<longleftrightarrow> (\<forall>n \<in> set ns. rf_type n \<noteq> Some ''start'')"
  by (simp add: startNodeId_def startNodeId_foldl)

lemma find_map_comp: "find P (map f xs) = map_option f (find (\<lambda>x. P (f x)) xs)"
  by (induction xs) auto

lemma find_filter_conj: "find P (filter Q xs) = find (\<lambda>x. Q x \<and> P x) xs"
  by (induction xs) auto

lemma find_chosen:
  "find (\<lambda>n. nb_branch n = Some b) (neighborsOf ns es a)
     = map_option neighborEntry (find (\<lambda>e. rfe_source e = a \<and> labelBranch (rfe_label e) = Some b) es)"
  by (simp add: neighborsOf_eq find_map_comp find_filter_conj neighborEntry_def)

lemma neighborEntry_sourceHandle:
  "neighborEntry (e\<lparr> rfe_sourceHandle := h \<rparr>) = neighborEntry e"
  by (simp add: neighborEntry_def)

lemma neighborsOf_sourceHandle:
  "neighborsOf ns (map (\<lambda>e. e\<lparr> rfe_sourceHandle := h e \<rparr>) es) a = neighborsOf ns es a"
  by (simp add: neighborsOf_eq filter_map comp_def neighborEntry_sourceHandle)

lemma find_append_case:
  "find P (xs @ ys) = (case find P xs of None \<Rightarrow> find P ys | Some x \<Rightarrow> Some x)"
  by (induction xs) auto

lemma nodeTypeMap_foldl:
  "foldl (\<lambda>m node. m(rf_id node \<mapsto> (case rf_type node of None \<Rightarrow> ''action'' | Some t \<Rightarrow> t))) m0 ns k
    = (case find (\<lambda>n. rf_id n = k) (rev ns) of None \<Rightarrow> m0 k
        | Some n \<Rightarrow> Some (case rf_type n of None \<Rightarrow> ''action'' | Some t \<Rightarrow> t))"
  by (induction ns arbitrary: m0) (auto simp: find_append_case split: option.splits)

lemma nodeTypeOf_eq:
  "nodeTypeOf ns k = (case find (\<lambda>n. rf_id n = k) (rev ns) of None \<Rightarrow> ''action''
        | Some n \<Rightarrow> (case rf_type n of None \<Rightarrow> ''action'' | Some t \<Rightarrow> t))"
  by (simp add: nodeTypeOf_def nodeTypeMap_def nodeTypeMap_foldl split: option.splits)

lemma scenario_neighbors3:
  "neighborsOf scenario_nodes scenario_edges ''3'' =
     [\<lparr>targetId = ''4'', edgeId = ''e2'', nb_branch = Some Yes\<rparr>,
      \<lparr>targetId = ''5'', edgeId = ''e3'', nb_branch = Some No\<rparr>]"
  by (simp add: neighborsOf_eq scenario_edges_def rfEdge_def neighborEntry_def
      labelBranch_def toLowerCase_def toLowerChar_def)

text \<open>
  The scenario of the specification: \<open>start()\<close> and three timers reach the state
  \<open>scenario_paused\<close>, paused at node 3 with nodes 1, 2, 3 and the edges e0, e1 visited.
\<close>

lemma scenario_paused_reached:
  "fire scenario_nodes scenario_edges 2
     (fire scenario_nodes scenario_edges 1
        (fire scenario_nodes scenario_edges 0 (start scenario_nodes initial)))
   = scenario_paused"
  by (simp add: start_def startNodeId_def fire_def advance_def nodeTypeOf_eq neighborsOf_eq
        neighborEntry_def setTimer_def clearTimer_def initial_def scenario_paused_def
        scenario_nodes_def scenario_edges_def rfNode_def rfEdge_def Let_def insert_commute)

subsection \<open>advance on a node without outgoing edges\<close>

text \<open>
  C1 (amended). When the node passed to \<open>advance\<close> has no outgoing edge in the adjacency
  map, no timer is scheduled, the node becomes the active node and is marked visited,
  and no edge is marked; the status becomes \<open>complete\<close> when the node's type is not
  \<open>condition\<close> (start, end, action, or a type the map does not know), and \<open>paused\<close> when it
  is \<open>condition\<close>: the test for condition nodes comes before the test for outgoing edges.
\<close>

theorem advance_terminal:
  assumes "neighborsOf ns es nodeId = []"
  shows "status (advance ns es nodeId s)
           = (if nodeTypeOf ns nodeId = ''condition'' then Paused else Complete)
         \<and> pending (advance ns es nodeId s) = pending s
         \<and> timerRef (advance ns es nodeId s) = timerRef s
         \<and> activeNodeId (advance ns es nodeId s) = Some nodeId
         \<and> visitedNodeIds (advance ns es nodeId s) = insert nodeId (visitedNodeIds s)
         \<and> visitedEdgeIds (advance ns es nodeId s) = visitedEdgeIds s"
  using assms by (simp add: advance_def Let_def)

text \<open>
  The theorem at an action node without outgoing edges: \<open>complete\<close>, the node active,
  no timer.
\<close>

theorem advance_terminal_witness:
  "neighborsOf [rfNode ''7'' ''action''] [] ''7'' = []
   \<and> status (advance [rfNode ''7'' ''action''] [] ''7'' initial) = Complete
   \<and> activeNodeId (advance [rfNode ''7'' ''action''] [] ''7'' initial) = Some ''7''
   \<and> pending (advance [rfNode ''7'' ''action''] [] ''7'' initial) = []"
proof -
  have h: "neighborsOf [rfNode ''7'' ''action''] [] ''7'' = []"
    by (simp add: neighborsOf_eq)
  show ?thesis
    using h advance_terminal [OF h, of initial]
    by (simp add: nodeTypeOf_eq rfNode_def initial_def)
qed

text \<open>
  C1 as stated fails: in \<open>dead_end\<close> the condition node 2 has no outgoing edge, and
  \<open>advance\<close> on it pauses the simulation instead of completing it.
\<close>

theorem advance_terminal_condition_counterexample:
  "neighborsOf dead_end_nodes dead_end_edges ''2'' = []
   \<and> status (advance dead_end_nodes dead_end_edges ''2'' initial) = Paused
   \<and> status (advance dead_end_nodes dead_end_edges ''2'' initial) \<noteq> Complete"
  by (simp add: neighborsOf_eq dead_end_edges_def dead_end_nodes_def rfEdge_def rfNode_def
       advance_def nodeTypeOf_eq Let_def)

subsection \<open>start without a start node\<close>

text \<open>
  \<open>start()\<close> resets the state and sets the status to \<open>running\<close> before it tests
  whether there is a start node; the test only guards the scheduling of the first
  \<open>advance\<close>. \<open>resume\<close> and \<open>choose\<close> test their guard first and touch nothing when it
  fails.
\<close>

lemma start_before_guard:
  assumes "\<forall>n \<in> set ns. rf_type n \<noteq> Some ''start''"
  shows "observable (start ns s) = (Running, None, {}, {})
         \<and> timerRef (start ns s) = None
         \<and> pending (start ns s)
             = (case timerRef s of None \<Rightarrow> pending s
                | Some h \<Rightarrow> filter (\<lambda>t. t_handle t \<noteq> h) (pending s))"
proof -
  have "startNodeId ns = None" using assms by (simp add: startNodeId_None)
  then show ?thesis
    by (simp add: start_def observable_def clearTimer_def Let_def split: option.splits)
qed

lemma guarded_operations:
  "activeNodeId s = None \<Longrightarrow> resume ns es s = s"
  "status s \<noteq> Paused \<or> activeNodeId s = None \<Longrightarrow> chooseBranch ns es b s = s"
  by (simp_all add: resume_def chooseBranch_def)

text \<open>
  C3 fails. \<open>headless\<close> has the nodes 2 (action) and 4 (end) and no start node. From the
  initial state, \<open>start()\<close> changes the observable state: the status becomes
  \<open>running\<close>. No timer is outstanding afterwards, so no \<open>advance\<close> will ever run and
  the status stays \<open>running\<close> with no active node. \<open>resume()\<close> changes nothing there;
  \<open>pause()\<close> leads to \<open>stopped\<close>, where \<open>resume()\<close> changes nothing either.
\<close>

theorem start_headless_stuck:
  "map rf_type headless_nodes = [Some ''action'', Some ''end'']
   \<and> startNodeId headless_nodes = None
   \<and> observable initial = (Idle, None, {}, {})
   \<and> observable (start headless_nodes initial) = (Running, None, {}, {})
   \<and> observable (start headless_nodes initial) \<noteq> observable initial
   \<and> pending (start headless_nodes initial) = []
   \<and> resume headless_nodes [] (start headless_nodes initial) = start headless_nodes initial
   \<and> observable (pause (start headless_nodes initial)) = (Stopped, None, {}, {})
   \<and> resume headless_nodes [] (pause (start headless_nodes initial))
       = pause (start headless_nodes initial)"
  by (simp add: headless_nodes_def rfNode_def start_def startNodeId_def observable_def
        initial_def clearTimer_def resume_def pause_def Let_def)

subsection \<open>choose\<close>

text \<open>
  C7. \<open>choose(branch)\<close> leaves the whole state as it is unless the status is \<open>paused\<close>,
  there is an active node, and some edge leaving the active node has a label that is
  \<open>yes\<close> or \<open>no\<close> up to case and equals the requested branch. Otherwise it takes the
  first such edge of the edge list, marks its id visited, sets the status to \<open>running\<close>
  and schedules \<open>advance\<close> on the edge's target after 50 ms. The \<open>sourceHandle\<close> of the
  edges has no influence. \<open>choose\<close> has no failing operation: the model is a total
  function without an error value.
\<close>

theorem chooseBranch_by_label:
  "chooseBranch ns es b s =
     (case (if status s = Paused then activeNodeId s else None) of
        None \<Rightarrow> s
      | Some a \<Rightarrow>
          (case find (\<lambda>e. rfe_source e = a \<and> labelBranch (rfe_label e) = Some b) es of
             None \<Rightarrow> s
           | Some e \<Rightarrow>
               s\<lparr> status := Running,
                  visitedEdgeIds := insert (rfe_id e) (visitedEdgeIds s),
                  pending := pending s @ [\<lparr> t_handle = nextHandle s, t_delay = 50, t_target = rfe_target e \<rparr>],
                  timerRef := Some (nextHandle s),
                  nextHandle := Suc (nextHandle s) \<rparr>))
   \<and> chooseBranch ns (map (\<lambda>e. e\<lparr> rfe_sourceHandle := h e \<rparr>) es) b s = chooseBranch ns es b s"
  by (simp add: chooseBranch_def find_chosen neighborsOf_sourceHandle setTimer_def neighborEntry_def
        split: option.splits)

text \<open>
  On \<open>scenario\<close>, paused at node 3: choosing yes takes the edge labelled \<open>Yes\<close>; choosing
  while the status is \<open>running\<close> changes nothing.
\<close>

theorem chooseBranch_by_label_witness:
  "chooseBranch scenario_nodes scenario_edges Yes scenario_paused =
     scenario_paused\<lparr> status := Running, visitedEdgeIds := {''e0'', ''e1'', ''e2''},
        pending := [\<lparr> t_handle = 3, t_delay = 50, t_target = ''4'' \<rparr>],
        timerRef := Some 3, nextHandle := 4 \<rparr>
   \<and> chooseBranch scenario_nodes scenario_edges No (scenario_paused\<lparr> status := Running \<rparr>)
       = scenario_paused\<lparr> status := Running \<rparr>"
  using chooseBranch_by_label [of scenario_nodes scenario_edges Yes scenario_paused]
        chooseBranch_by_label [of scenario_nodes scenario_edges No "scenario_paused\<lparr> status := Running \<rparr>"]
  by (auto simp: scenario_paused_def scenario_edges_def rfEdge_def
        labelBranch_def toLowerCase_def toLowerChar_def)

subsection \<open>The visited sets only grow\<close>

lemma advance_visited:
  "visitedNodeIds s \<subseteq> visitedNodeIds (advance ns es n s)
   \<and> visitedEdgeIds s \<subseteq> visitedEdgeIds (advance ns es n s)"
  by (auto simp: advance_def Let_def setTimer_def split: list.splits)

text \<open>
  C8. The active node is a single optional id, so in every state it is either null or
  one node id. Each of \<open>advance\<close>, \<open>choose\<close>, \<open>pause\<close> and \<open>resume\<close>, and a timer that
  fires, leaves every visited node and every visited edge visited: the sets after the
  operation include the sets before it.
\<close>

theorem visited_sets_grow:
  "(activeNodeId s = None \<or> (\<exists>n. activeNodeId s = Some n))
   \<and> visitedNodeIds s \<subseteq> visitedNodeIds (advance ns es n s)
   \<and> visitedEdgeIds s \<subseteq> visitedEdgeIds (advance ns es n s)
   \<and> visitedNodeIds s \<subseteq> visitedNodeIds (chooseBranch ns es b s)
   \<and> visitedEdgeIds s \<subseteq> visitedEdgeIds (chooseBranch ns es b s)
   \<and> visitedNodeIds s \<subseteq> visitedNodeIds (pause s)
   \<and> visitedEdgeIds s \<subseteq> visitedEdgeIds (pause s)
   \<and> visitedNodeIds s \<subseteq> visitedNodeIds (resume ns es s)
   \<and> visitedEdgeIds s \<subseteq> visitedEdgeIds (resume ns es s)
   \<and> visitedNodeIds s \<subseteq> visitedNodeIds (fire ns es h s)
   \<and> visitedEdgeIds s \<subseteq> visitedEdgeIds (fire ns es h s)"
proof -
  have a: "activeNodeId s = None \<or> (\<exists>n. activeNodeId s = Some n)"
    by (cases "activeNodeId s") simp_all
  have c: "visitedNodeIds s \<subseteq> visitedNodeIds (chooseBranch ns es b s)
           \<and> visitedEdgeIds s \<subseteq> visitedEdgeIds (chooseBranch ns es b s)"
    by (auto simp: chooseBranch_def setTimer_def split: option.splits)
  have p: "visitedNodeIds s \<subseteq> visitedNodeIds (pause s) \<and> visitedEdgeIds s \<subseteq> visitedEdgeIds (pause s)"
    by (simp add: pause_def clearTimer_def split: option.splits)
  have r: "visitedNodeIds s \<subseteq> visitedNodeIds (resume ns es s)
           \<and> visitedEdgeIds s \<subseteq> visitedEdgeIds (resume ns es s)"
    using advance_visited by (simp add: resume_def split: option.splits)
  have f: "visitedNodeIds s \<subseteq> visitedNodeIds (fire ns es h s)
           \<and> visitedEdgeIds s \<subseteq> visitedEdgeIds (fire ns es h s)"
    using advance_visited [of "s\<lparr> pending := filter (\<lambda>t. t_handle t \<noteq> h) (pending s) \<rparr>" ns es]
    by (simp add: fire_def split: option.splits)
  show ?thesis using a c p r f advance_visited [of s ns es n] by blast
qed

text \<open>The theorem on \<open>scenario\<close>, paused at node 3.\<close>

theorem visited_sets_grow_witness:
  "visitedEdgeIds scenario_paused \<subseteq> visitedEdgeIds (chooseBranch scenario_nodes scenario_edges Yes scenario_paused)
   \<and> visitedNodeIds scenario_paused \<subseteq> visitedNodeIds (resume scenario_nodes scenario_edges scenario_paused)
   \<and> activeNodeId scenario_paused = Some ''3''"
  using visited_sets_grow [of scenario_paused scenario_nodes scenario_edges "''3''" Yes 0]
  by (simp add: scenario_paused_def)

subsection \<open>What a successful choose changes\<close>

text \<open>
  Handles stay fresh under every operation, so \<open>handlesFresh\<close> holds in every state
  reached from the initial one.
\<close>

lemma handlesFresh_initial: "handlesFresh initial"
  by (simp add: handlesFresh_def initial_def)

lemma handlesFresh_filter:
  "list_all (\<lambda>t. t_handle t < k) ts \<Longrightarrow> list_all (\<lambda>t. t_handle t < k) (filter Q ts)"
  by (induction ts) auto

lemma handlesFresh_less:
  "list_all (\<lambda>t. t_handle t < k) ts \<Longrightarrow> list_all (\<lambda>t. t_handle t < Suc k) ts"
  by (induction ts) auto

lemma handlesFresh_clearTimer: "handlesFresh s \<Longrightarrow> handlesFresh (clearTimer s)"
  by (simp add: handlesFresh_def clearTimer_def handlesFresh_filter split: option.splits)

lemma handlesFresh_setTimer: "handlesFresh s \<Longrightarrow> handlesFresh (setTimer t d s)"
  by (simp add: handlesFresh_def setTimer_def handlesFresh_less)

lemma handlesFresh_advance: "handlesFresh s \<Longrightarrow> handlesFresh (advance ns es n s)"
  by (simp add: handlesFresh_def advance_def Let_def setTimer_def handlesFresh_less
        split: list.splits)

lemma handlesFresh_operations:
  assumes "handlesFresh s"
  shows "handlesFresh (reset s)" and "handlesFresh (start ns s)" and "handlesFresh (pause s)"
    and "handlesFresh (resume ns es s)" and "handlesFresh (chooseBranch ns es b s)"
    and "handlesFresh (fire ns es h s)"
proof -
  have c: "handlesFresh (clearTimer s)" using assms by (rule handlesFresh_clearTimer)
  show "handlesFresh (reset s)" using c by (simp add: handlesFresh_def reset_def)
  have "handlesFresh ((clearTimer s)\<lparr> status := Running, activeNodeId := None,
                               visitedNodeIds := {}, visitedEdgeIds := {} \<rparr>)"
    using c by (simp add: handlesFresh_def)
  then show "handlesFresh (start ns s)"
    by (simp add: start_def Let_def handlesFresh_setTimer split: option.splits)
  show "handlesFresh (pause s)" using c by (simp add: handlesFresh_def pause_def)
  show "handlesFresh (resume ns es s)"
    using assms by (simp add: resume_def handlesFresh_advance split: option.splits)
  have "\<And>e. handlesFresh (s\<lparr> status := Running, visitedEdgeIds := e \<rparr>)"
    using assms by (simp add: handlesFresh_def)
  then show "handlesFresh (chooseBranch ns es b s)"
    using assms by (simp add: chooseBranch_def handlesFresh_setTimer split: option.splits)
  have "handlesFresh (s\<lparr> pending := filter (\<lambda>t. t_handle t \<noteq> h) (pending s) \<rparr>)"
    using assms by (simp add: handlesFresh_def handlesFresh_filter)
  then show "handlesFresh (fire ns es h s)"
    using assms by (simp add: fire_def handlesFresh_advance split: option.splits)
qed

lemma find_append_new:
  "list_all (\<lambda>t. t_handle t < k) ts \<Longrightarrow> find (\<lambda>t. t_handle t = k) (ts @ [t']) = (if t_handle t' = k then Some t' else None)"
  by (induction ts) auto

text \<open>
  C10. When \<open>choose(branch)\<close> succeeds (the status is \<open>paused\<close> and the active node has
  a neighbour of the requested branch), then on return the status is \<open>running\<close>, the
  chosen edge's id has joined the visited edges and nothing else has, the active node
  and the visited nodes are as before, and one timer for the edge's target has been
  added. When that timer fires, the target becomes the active node and is marked
  visited.
\<close>

theorem chooseBranch_frame:
  assumes "status s = Paused" and "activeNodeId s = Some a"
    and "find (\<lambda>n. nb_branch n = Some b) (neighborsOf ns es a) = Some chosen"
    and "handlesFresh s"
  shows "status (chooseBranch ns es b s) = Running
     \<and> visitedEdgeIds (chooseBranch ns es b s) = insert (edgeId chosen) (visitedEdgeIds s)
     \<and> activeNodeId (chooseBranch ns es b s) = activeNodeId s
     \<and> visitedNodeIds (chooseBranch ns es b s) = visitedNodeIds s
     \<and> pending (chooseBranch ns es b s)
         = pending s @ [\<lparr> t_handle = nextHandle s, t_delay = 50, t_target = targetId chosen \<rparr>]
     \<and> activeNodeId (fire ns es (nextHandle s) (chooseBranch ns es b s)) = Some (targetId chosen)
     \<and> visitedNodeIds (fire ns es (nextHandle s) (chooseBranch ns es b s))
         = insert (targetId chosen) (visitedNodeIds s)"
proof -
  let ?t = "\<lparr> t_handle = nextHandle s, t_delay = 50, t_target = targetId chosen \<rparr>"
  let ?s1 = "s\<lparr> status := Running, visitedEdgeIds := insert (edgeId chosen) (visitedEdgeIds s) \<rparr>"
  have c: "chooseBranch ns es b s = setTimer (targetId chosen) 50 ?s1"
    using assms(1-3) by (simp add: chooseBranch_def)
  have fnd: "find (\<lambda>t. t_handle t = nextHandle s) (pending s @ [?t]) = Some ?t"
    using assms(4) by (simp add: handlesFresh_def find_append_new)
  have adv: "\<And>u. activeNodeId (advance ns es (targetId chosen) u) = Some (targetId chosen)
      \<and> visitedNodeIds (advance ns es (targetId chosen) u) = insert (targetId chosen) (visitedNodeIds u)"
    by (simp add: advance_def Let_def setTimer_def split: list.splits)
  show ?thesis
    by (simp add: c setTimer_def fire_def fnd adv)
qed

text \<open>On \<open>scenario\<close>: choosing yes at node 3, then the timer with handle 3 fires.\<close>

theorem chooseBranch_frame_witness:
  "status (chooseBranch scenario_nodes scenario_edges Yes scenario_paused) = Running
   \<and> visitedEdgeIds (chooseBranch scenario_nodes scenario_edges Yes scenario_paused) = {''e0'', ''e1'', ''e2''}
   \<and> activeNodeId (chooseBranch scenario_nodes scenario_edges Yes scenario_paused) = Some ''3''
   \<and> visitedNodeIds (chooseBranch scenario_nodes scenario_edges Yes scenario_paused) = {''1'', ''2'', ''3''}
   \<and> activeNodeId (fire scenario_nodes scenario_edges 3 (chooseBranch scenario_nodes scenario_edges Yes scenario_paused)) = Some ''4''
   \<and> visitedNodeIds (fire scenario_nodes scenario_edges 3 (chooseBranch scenario_nodes scenario_edges Yes scenario_paused)) = {''1'', ''2'', ''3'', ''4''}"
proof -
  have h1: "status scenario_paused = Paused" by (simp add: scenario_paused_def)
  have h2: "activeNodeId scenario_paused = Some ''3''" by (simp add: scenario_paused_def)
  have h3: "find (\<lambda>n. nb_branch n = Some Yes) (neighborsOf scenario_nodes scenario_edges ''3'')
              = Some \<lparr>targetId = ''4'', edgeId = ''e2'', nb_branch = Some Yes\<rparr>"
    by (simp add: scenario_neighbors3)
  have h4: "handlesFresh scenario_paused" by (simp add: handlesFresh_def scenario_paused_def)
  show ?thesis
    using chooseBranch_frame [OF h1 h2 h3 h4]
    by (auto simp: scenario_paused_def)
qed

section \<open>Properties of the layout\<close>

subsection \<open>getSubtree\<close>

lemma bfs_mono: "set vis \<subseteq> set (bfs g x vis q)"
  by (induction g x vis q rule: bfs.induct) auto

lemma bfs_exclude: "x \<notin> set vis \<Longrightarrow> x \<notin> set (bfs g x vis q)"
  by (induction g x vis q rule: bfs.induct) auto

lemma bfs_distinct: "distinct vis \<Longrightarrow> distinct (bfs g x vis q)"
  by (induction g x vis q rule: bfs.induct) auto

lemma bfs_queue: "i \<in> set q \<Longrightarrow> i \<noteq> x \<Longrightarrow> i \<in> set (bfs g x vis q)"
proof (induction g x vis q rule: bfs.induct)
  case (1 g x vis)
  then show ?case by simp
next
  case (2 g x vis j queue)
  show ?case
  proof (cases "j \<in> set vis \<or> j = x")
    case True
    show ?thesis
    proof (cases "i = j")
      case True
      with \<open>j \<in> set vis \<or> j = x\<close> "2.prems" have "i \<in> set vis" by simp
      then show ?thesis using bfs_mono by blast
    next
      case False
      with True "2.IH"(1) "2.prems" show ?thesis by simp
    qed
  next
    case False
    show ?thesis
    proof (cases "i = j")
      case True
      have "j \<in> set (vis @ [j])" by simp
      then have "j \<in> set (bfs g x (vis @ [j]) (queue @ successors g j))"
        using bfs_mono by blast
      with True False show ?thesis by simp
    next
      case ij: False
      with False "2.IH"(2) "2.prems" show ?thesis by simp
    qed
  qed
qed

lemma bfs_closed:
  "(\<forall>a \<in> set vis. \<forall>b \<in> set (successors g a). b = x \<or> b \<in> set vis \<or> b \<in> set q)
   \<Longrightarrow> (\<forall>a \<in> set (bfs g x vis q). \<forall>b \<in> set (successors g a). b = x \<or> b \<in> set (bfs g x vis q))"
proof (induction g x vis q rule: bfs.induct)
  case (1 g x vis)
  then show ?case by simp
next
  case (2 g x vis j queue)
  show ?case
  proof (cases "j \<in> set vis \<or> j = x")
    case True
    have "\<forall>a \<in> set vis. \<forall>b \<in> set (successors g a). b = x \<or> b \<in> set vis \<or> b \<in> set queue"
      using "2.prems" True by auto
    with "2.IH"(1) True show ?thesis by simp
  next
    case False
    have "\<forall>a \<in> set (vis @ [j]). \<forall>b \<in> set (successors g a).
            b = x \<or> b \<in> set (vis @ [j]) \<or> b \<in> set (queue @ successors g j)"
      using "2.prems" by auto
    with "2.IH"(2) False show ?thesis by simp
  qed
qed

lemma branchStep_succ:
  "i \<noteq> x \<Longrightarrow> b \<in> set (successors g i) \<Longrightarrow> b \<noteq> x \<Longrightarrow> (i, b) \<in> branchStep g x"
  by (simp add: branchStep_def)

lemma bfs_sound:
  "set (bfs g x vis q) \<subseteq> set vis \<union> (branchStep g x)\<^sup>* `` (set q - {x})"
proof (induction g x vis q rule: bfs.induct)
  case (1 g x vis)
  then show ?case by simp
next
  case (2 g x vis j queue)
  show ?case
  proof (cases "j \<in> set vis \<or> j = x")
    case True
    have "(branchStep g x)\<^sup>* `` (set queue - {x}) \<subseteq> (branchStep g x)\<^sup>* `` (set (j # queue) - {x})"
      by auto
    with "2.IH"(1) True show ?thesis by auto
  next
    case False
    then have jx: "j \<noteq> x" by simp
    have ih: "set (bfs g x (vis @ [j]) (queue @ successors g j))
        \<subseteq> set (vis @ [j]) \<union> (branchStep g x)\<^sup>* `` (set (queue @ successors g j) - {x})"
      using "2.IH"(2) False by simp
    have a: "set (vis @ [j]) \<subseteq> set vis \<union> (branchStep g x)\<^sup>* `` (set (j # queue) - {x})"
      using jx by auto
    have b: "(branchStep g x)\<^sup>* `` (set (queue @ successors g j) - {x})
        \<subseteq> (branchStep g x)\<^sup>* `` (set (j # queue) - {x})"
    proof
      fix v assume "v \<in> (branchStep g x)\<^sup>* `` (set (queue @ successors g j) - {x})"
      then obtain u where u: "u \<in> set (queue @ successors g j)" "u \<noteq> x" "(u, v) \<in> (branchStep g x)\<^sup>*"
        by auto
      show "v \<in> (branchStep g x)\<^sup>* `` (set (j # queue) - {x})"
      proof (cases "u \<in> set queue")
        case True
        with u show ?thesis by auto
      next
        case False
        with u have "u \<in> set (successors g j)" by simp
        then have "(j, u) \<in> branchStep g x" using jx u(2) by (simp add: branchStep_def)
        then have "(j, v) \<in> (branchStep g x)\<^sup>*" using u(3) by (rule converse_rtrancl_into_rtrancl)
        then show ?thesis using jx by auto
      qed
    qed
    from ih a b have "set (bfs g x (vis @ [j]) (queue @ successors g j))
        \<subseteq> set vis \<union> (branchStep g x)\<^sup>* `` (set (j # queue) - {x})" by blast
    with False show ?thesis by simp
  qed
qed

lemma bfs_range:
  "set (bfs g x vis q) \<subseteq> set vis \<union> set q \<union> set (map edge_to (graph_edges g))"
proof (induction g x vis q rule: bfs.induct)
  case (1 g x vis)
  then show ?case by simp
next
  case (2 g x vis j queue)
  have "set (successors g j) \<subseteq> set (map edge_to (graph_edges g))"
    by (auto simp: successors_def)
  with 2 show ?case by (cases "j \<in> set vis \<or> j = x") auto
qed

lemma getSubtree_exclude: "getSubtree g s x = bfs g x [] [s]"
  by (simp add: getSubtree_def)

lemma getSubtree_self_excluded: "getSubtree g x x = []"
  by (simp add: getSubtree_def)

lemma getSubtree_no_exclude: "x \<notin> set (getSubtree g s x)"
  by (simp add: getSubtree_def bfs_exclude)

lemma getSubtree_distinct: "distinct (getSubtree g s x)"
  by (simp add: getSubtree_def bfs_distinct)

lemma getSubtree_start: "s \<noteq> x \<Longrightarrow> s \<in> set (getSubtree g s x)"
  unfolding getSubtree_def by (rule bfs_queue) simp_all

lemma getSubtree_range: "set (getSubtree g s x) \<subseteq> insert s (set (map edge_to (graph_edges g)))"
  using bfs_range [of g x "[]" "[s]"] by (auto simp: getSubtree_def)

theorem getSubtree_reachable:
  "set (getSubtree g s x) = reachableAvoiding g s x"
proof (cases "s = x")
  case True
  then show ?thesis by (simp add: reachableAvoiding_def getSubtree_self_excluded)
next
  case False
  let ?R = "set (getSubtree g s x)"
  have sound: "?R \<subseteq> (branchStep g x)\<^sup>* `` {s}"
    using bfs_sound [of g x "[]" "[s]"] False by (auto simp: getSubtree_def)
  have closed: "\<forall>a \<in> ?R. \<forall>b \<in> set (successors g a). b = x \<or> b \<in> ?R"
    unfolding getSubtree_def by (rule bfs_closed) simp
  have complete: "v \<in> ?R" if "(s, v) \<in> (branchStep g x)\<^sup>*" for v
    using that
  proof (induction rule: rtrancl_induct)
    case base
    show ?case using False by (rule getSubtree_start)
  next
    case (step u w)
    from step.hyps(2) have "w \<in> set (successors g u)" "w \<noteq> x"
      by (simp_all add: branchStep_def)
    with closed step.IH show ?case by blast
  qed
  from sound complete show ?thesis using False by (auto simp: reachableAvoiding_def)
qed

lemma getSubtree_trans:
  assumes "a \<in> set (getSubtree g s x)"
  shows "set (getSubtree g a x) \<subseteq> set (getSubtree g s x)"
proof -
  have ax: "a \<noteq> x" using assms getSubtree_no_exclude by metis
  have sx: "s \<noteq> x" using assms by (auto simp: getSubtree_self_excluded)
  from assms sx have sa: "(s, a) \<in> (branchStep g x)\<^sup>*"
    by (simp add: getSubtree_reachable reachableAvoiding_def)
  show ?thesis
  proof
    fix v assume "v \<in> set (getSubtree g a x)"
    with ax have "(a, v) \<in> (branchStep g x)\<^sup>*"
      by (simp add: getSubtree_reachable reachableAvoiding_def)
    with sa have "(s, v) \<in> (branchStep g x)\<^sup>*" by (rule rtrancl_trans)
    with sx show "v \<in> set (getSubtree g s x)"
      by (simp add: getSubtree_reachable reachableAvoiding_def)
  qed
qed

subsection \<open>The convergence loop and the translation loop\<close>

lemma removeShared_foldl:
  "foldl (\<lambda>(ys, ns) i. if i \<in> set ns then (removeAll i ys, removeAll i ns) else (ys, ns)) (A, B) zs
   = (filter (\<lambda>i. \<not> (i \<in> set zs \<and> i \<in> set B)) A, filter (\<lambda>i. i \<notin> set zs) B)"
proof (induction zs arbitrary: A B)
  case Nil
  show ?case by simp
next
  case (Cons z zs)
  show ?case
  proof (cases "z \<in> set B")
    case True
    have 1: "filter (\<lambda>i. \<not> (i \<in> set zs \<and> i \<in> set (removeAll z B))) (removeAll z A)
           = filter (\<lambda>i. \<not> (i \<in> set (z # zs) \<and> i \<in> set B)) A"
      using True by (induction A) auto
    have 2: "filter (\<lambda>i. i \<notin> set zs) (removeAll z B) = filter (\<lambda>i. i \<notin> set (z # zs)) B"
      by (induction B) auto
    show ?thesis using True by (simp only: foldl_Cons Cons.IH split if_True 1 2)
  next
    case False
    have 1: "filter (\<lambda>i. \<not> (i \<in> set zs \<and> i \<in> set B)) A
           = filter (\<lambda>i. \<not> (i \<in> set (z # zs) \<and> i \<in> set B)) A"
      using False by (intro filter_cong) auto
    have 2: "filter (\<lambda>i. i \<notin> set zs) B = filter (\<lambda>i. i \<notin> set (z # zs)) B"
      using False by (intro filter_cong) auto
    show ?thesis using False by (simp only: foldl_Cons Cons.IH split if_False 1 2)
  qed
qed

lemma removeShared_eq:
  "removeShared ys ns = (filter (\<lambda>i. i \<notin> set ns) ys, filter (\<lambda>i. i \<notin> set ys) ns)"
proof -
  have "filter (\<lambda>i. \<not> (i \<in> set ys \<and> i \<in> set ns)) ys = filter (\<lambda>i. i \<notin> set ns) ys"
    by (intro filter_cong) auto
  then show ?thesis by (simp add: removeShared_def removeShared_foldl)
qed

lemma translate_eq:
  "distinct ids \<Longrightarrow>
   translate rnd d delta ids P =
     (if set ids \<subseteq> dom P
      then Inr (\<lambda>k. if k \<in> set ids then map_option (shift rnd d delta) (P k) else P k)
      else Inl TypeError)"
proof (induction ids arbitrary: P)
  case Nil
  show ?case by simp
next
  case (Cons i ids)
  from Cons.prems have d: "distinct ids" and ni: "i \<notin> set ids" by simp_all
  show ?case
  proof (cases "P i")
    case None
    then show ?thesis by (auto simp: dom_def)
  next
    case (Some p)
    have dm: "set ids \<subseteq> dom (P(i \<mapsto> shift rnd d delta p)) \<longleftrightarrow> set (i # ids) \<subseteq> dom P"
      using Some by auto
    have fn: "(\<lambda>k. if k \<in> set ids then map_option (shift rnd d delta) ((P(i \<mapsto> shift rnd d delta p)) k)
                   else (P(i \<mapsto> shift rnd d delta p)) k)
            = (\<lambda>k. if k \<in> set (i # ids) then map_option (shift rnd d delta) (P k) else P k)"
      using Some ni by (auto simp: fun_eq_iff)
    show ?thesis
      using Some by (simp only: translate.simps option.case Cons.IH [OF d] dm fn)
  qed
qed

subsection \<open>One step of enforceYesOnRight\<close>

lemma enforceStep_skip:
  "node_type n \<noteq> Condition \<or> yesEdge g n = None \<or> noEdge g n = None
   \<Longrightarrow> enforceStep rnd g d P n = Inr P"
  by (auto simp: enforceStep_def split: option.splits)

lemma enforceStep_unplaced:
  "yesEdge g n = Some ye \<Longrightarrow> noEdge g n = Some ne
   \<Longrightarrow> P (edge_to ye) = None \<or> P (edge_to ne) = None
   \<Longrightarrow> enforceStep rnd g d P n = Inr P"
  by (auto simp: enforceStep_def split: option.splits)

lemma enforceStep_correct:
  "yesEdge g n = Some ye \<Longrightarrow> noEdge g n = Some ne
   \<Longrightarrow> P (edge_to ye) = Some yr \<Longrightarrow> P (edge_to ne) = Some nr
   \<Longrightarrow> yesIsCorrect d yr nr
   \<Longrightarrow> enforceStep rnd g d P n = Inr P"
  by (simp add: enforceStep_def)

lemma enforceStep_active:
  assumes "node_type n = Condition"
    and "yesEdge g n = Some ye" and "noEdge g n = Some ne"
    and "P (edge_to ye) = Some yr" and "P (edge_to ne) = Some nr"
    and "\<not> yesIsCorrect d yr nr"
  shows "enforceStep rnd g d P n =
     (if (set (getSubtree g (edge_to ye) (node_id n)) - set (getSubtree g (edge_to ne) (node_id n)))
         \<union> (set (getSubtree g (edge_to ne) (node_id n)) - set (getSubtree g (edge_to ye) (node_id n)))
         \<subseteq> dom P
      then Inr (\<lambda>k.
             if k \<in> set (getSubtree g (edge_to ye) (node_id n))
                \<and> k \<notin> set (getSubtree g (edge_to ne) (node_id n))
             then map_option (shift rnd d (rnd (coord d nr - coord d yr))) (P k)
             else if k \<in> set (getSubtree g (edge_to ne) (node_id n))
                \<and> k \<notin> set (getSubtree g (edge_to ye) (node_id n))
             then map_option (shift rnd d (- (rnd (coord d nr - coord d yr)))) (P k)
             else P k)
      else Inl TypeError)"
proof -
  define YS where "YS = getSubtree g (edge_to ye) (node_id n)"
  define NS where "NS = getSubtree g (edge_to ne) (node_id n)"
  define YM where "YM = filter (\<lambda>i. i \<notin> set NS) YS"
  define NM where "NM = filter (\<lambda>i. i \<notin> set YS) NS"
  define delta where "delta = rnd (coord d nr - coord d yr)"
  define P1 where "P1 = (\<lambda>k. if k \<in> set YM then map_option (shift rnd d delta) (P k) else P k)"
  have dY: "distinct YM" and dN: "distinct NM"
    by (simp_all add: YM_def NM_def YS_def NS_def getSubtree_distinct)
  have step: "enforceStep rnd g d P n =
      (case translate rnd d delta YM P of Inl err \<Rightarrow> Inl err | Inr P1 \<Rightarrow> translate rnd d (- delta) NM P1)"
    unfolding YM_def NM_def YS_def NS_def delta_def
    using assms by (simp add: enforceStep_def removeShared_eq Let_def)
  have t1: "translate rnd d delta YM P = (if set YM \<subseteq> dom P then Inr P1 else Inl TypeError)"
    by (simp add: translate_eq [OF dY] P1_def)
  have dom1: "dom P1 = dom P"
    by (auto simp: P1_def dom_def split: if_splits)
  have t2: "translate rnd d (- delta) NM P1 =
      (if set NM \<subseteq> dom P
       then Inr (\<lambda>k. if k \<in> set NM then map_option (shift rnd d (- delta)) (P1 k) else P1 k)
       else Inl TypeError)"
    by (simp add: translate_eq [OF dN] dom1)
  have disj: "set YM \<inter> set NM = {}"
    by (auto simp: YM_def NM_def)
  have fn: "(\<lambda>k. if k \<in> set NM then map_option (shift rnd d (- delta)) (P1 k) else P1 k)
      = (\<lambda>k. if k \<in> set YM then map_option (shift rnd d delta) (P k)
              else if k \<in> set NM then map_option (shift rnd d (- delta)) (P k) else P k)"
    using disj by (auto simp: fun_eq_iff P1_def)
  have sets: "set YM = set YS - set NS" "set NM = set NS - set YS"
    by (auto simp: YM_def NM_def)
  have main: "enforceStep rnd g d P n =
      (if set YM \<union> set NM \<subseteq> dom P
       then Inr (\<lambda>k. if k \<in> set YM then map_option (shift rnd d delta) (P k)
              else if k \<in> set NM then map_option (shift rnd d (- delta)) (P k) else P k)
       else Inl TypeError)"
    by (simp add: step t1 t2 fn)
  have un: "set YM \<union> set NM = (set YS - set NS) \<union> (set NS - set YS)"
    by (simp add: sets)
  have fn2: "(\<lambda>k. if k \<in> set YM then map_option (shift rnd d delta) (P k)
              else if k \<in> set NM then map_option (shift rnd d (- delta)) (P k) else P k)
      = (\<lambda>k. if k \<in> set YS \<and> k \<notin> set NS then map_option (shift rnd d delta) (P k)
              else if k \<in> set NS \<and> k \<notin> set YS then map_option (shift rnd d (- delta)) (P k)
              else P k)"
    by (auto simp: fun_eq_iff sets)
  show ?thesis
    using main unfolding un fn2 unfolding YS_def NS_def delta_def .
qed

text \<open>Unfolding sets for evaluating the example graphs.\<close>

lemmas label_eval = lowerLabel_def toLowerCase_def toLowerChar_def
lemmas graph_eval = flowNode_def flowEdge_def outEdges_def yesEdge_def noEdge_def
  getSubtree_def successors_def
lemmas step_eval = enforceStep_def removeShared_def yesIsCorrect_def coord_def withCoord_def
  shift_def noRounding_def Let_def

subsection \<open>Convergence nodes within one step\<close>

text \<open>
  The step of a condition node moves no convergence node of that condition node,
  whatever the rounding.
\<close>

lemma convergence_fixed_by_step:
  assumes "yesEdge g n = Some ye" and "noEdge g n = Some ne"
    and "v \<in> reachableAvoiding g (edge_to ye) (node_id n)"
    and "v \<in> reachableAvoiding g (edge_to ne) (node_id n)"
    and "enforceStep rnd g d P n = Inr P'"
  shows "P' v = P v"
proof (cases "node_type n = Condition")
  case False
  with assms(5) show ?thesis by (simp add: enforceStep_skip)
next
  case c: True
  show ?thesis
  proof (cases "P (edge_to ye) = None \<or> P (edge_to ne) = None")
    case True
    with assms(1,2) have "enforceStep rnd g d P n = Inr P" by (rule enforceStep_unplaced)
    with assms(5) show ?thesis by simp
  next
    case False
    then obtain yr nr where yr: "P (edge_to ye) = Some yr" and nr: "P (edge_to ne) = Some nr"
      by auto
    show ?thesis
    proof (cases "yesIsCorrect d yr nr")
      case True
      with assms(1,2,5) yr nr show ?thesis by (simp add: enforceStep_correct)
    next
      case False
      from assms(5) enforceStep_active [OF c assms(1,2) yr nr False] assms(3,4)
      show ?thesis
        by (auto simp: getSubtree_reachable split: if_splits)
    qed
  qed
qed

subsection \<open>What a step leaves alone\<close>

text \<open>
  A step translates the ids of its two sets and leaves every other position as it is.
\<close>

lemma movedSets_skip:
  "node_type n \<noteq> Condition \<or> yesEdge g n = None \<or> noEdge g n = None \<Longrightarrow> movedSets g n = ([], [])"
  by (auto simp: movedSets_def split: option.splits)

lemma movedSets_sets:
  assumes "node_type n = Condition" and "yesEdge g n = Some ye" and "noEdge g n = Some ne"
  shows "set (fst (movedSets g n))
           = set (getSubtree g (edge_to ye) (node_id n)) - set (getSubtree g (edge_to ne) (node_id n))"
    and "set (snd (movedSets g n))
           = set (getSubtree g (edge_to ne) (node_id n)) - set (getSubtree g (edge_to ye) (node_id n))"
  using assms by (auto simp: movedSets_def removeShared_eq)

lemma movedSets_disjoint: "set (fst (movedSets g n)) \<inter> set (snd (movedSets g n)) = {}"
  by (auto simp: movedSets_def removeShared_eq split: option.splits)

lemma enforceStep_active_moved:
  assumes c: "node_type n = Condition"
    and ye: "yesEdge g n = Some ye" and ne: "noEdge g n = Some ne"
    and yr: "P (edge_to ye) = Some yr" and nr: "P (edge_to ne) = Some nr"
    and wrong: "\<not> yesIsCorrect d yr nr"
  shows "enforceStep rnd g d P n =
     (if set (fst (movedSets g n)) \<union> set (snd (movedSets g n)) \<subseteq> dom P
      then Inr (\<lambda>k. if k \<in> set (fst (movedSets g n))
                     then map_option (shift rnd d (rnd (coord d nr - coord d yr))) (P k)
                     else if k \<in> set (snd (movedSets g n))
                     then map_option (shift rnd d (- (rnd (coord d nr - coord d yr)))) (P k)
                     else P k)
      else Inl TypeError)"
proof -
  let ?A = "set (getSubtree g (edge_to ye) (node_id n))"
  let ?B = "set (getSubtree g (edge_to ne) (node_id n))"
  have un: "(?A - ?B) \<union> (?B - ?A) = set (fst (movedSets g n)) \<union> set (snd (movedSets g n))"
    by (simp add: movedSets_sets [OF c ye ne])
  have fn: "(\<lambda>k. if k \<in> ?A \<and> k \<notin> ?B then f k else if k \<in> ?B \<and> k \<notin> ?A then h k else P k)
      = (\<lambda>k. if k \<in> set (fst (movedSets g n)) then f k
              else if k \<in> set (snd (movedSets g n)) then h k else P k)"
    for f h :: "string \<Rightarrow> position option"
    by (auto simp: fun_eq_iff movedSets_sets [OF c ye ne])
  show ?thesis
    unfolding enforceStep_active [OF c ye ne yr nr wrong] un fn ..
qed

lemma enforceStep_unmoved:
  assumes "enforceStep rnd g d P m = Inr P'"
    and "v \<notin> set (fst (movedSets g m))" and "v \<notin> set (snd (movedSets g m))"
  shows "P' v = P v"
proof (cases "node_type m \<noteq> Condition \<or> yesEdge g m = None \<or> noEdge g m = None")
  case True
  then have "enforceStep rnd g d P m = Inr P" by (rule enforceStep_skip)
  with assms(1) show ?thesis by simp
next
  case False
  then obtain ye ne where c: "node_type m = Condition"
    and ye: "yesEdge g m = Some ye" and ne: "noEdge g m = Some ne" by auto
  show ?thesis
  proof (cases "P (edge_to ye) = None \<or> P (edge_to ne) = None")
    case True
    with ye ne have "enforceStep rnd g d P m = Inr P" by (rule enforceStep_unplaced)
    with assms(1) show ?thesis by simp
  next
    case False
    then obtain yr nr where yr: "P (edge_to ye) = Some yr" and nr: "P (edge_to ne) = Some nr"
      by auto
    show ?thesis
    proof (cases "yesIsCorrect d yr nr")
      case True
      with ye ne yr nr have "enforceStep rnd g d P m = Inr P" by (simp add: enforceStep_correct)
      with assms(1) show ?thesis by simp
    next
      case False
      from assms(1) enforceStep_active_moved [OF c ye ne yr nr False]
      have "P' = (\<lambda>k. if k \<in> set (fst (movedSets g m))
                     then map_option (shift rnd d (rnd (coord d nr - coord d yr))) (P k)
                     else if k \<in> set (snd (movedSets g m))
                     then map_option (shift rnd d (- rnd (coord d nr - coord d yr))) (P k)
                     else P k)"
        by (simp split: if_splits)
      with assms(2,3) show ?thesis by simp
    qed
  qed
qed

lemma enforceNodes_unmoved:
  assumes "enforceNodes rnd g d ns P = Inr P'"
    and "\<forall>m \<in> set ns. v \<notin> set (fst (movedSets g m)) \<and> v \<notin> set (snd (movedSets g m))"
  shows "P' v = P v"
  using assms
proof (induction ns arbitrary: P)
  case Nil
  then show ?case by simp
next
  case (Cons m ns)
  from Cons.prems(1) obtain P1 where s: "enforceStep rnd g d P m = Inr P1"
    and rest: "enforceNodes rnd g d ns P1 = Inr P'"
    by (auto split: sum.splits)
  from Cons.prems(2) have "v \<notin> set (fst (movedSets g m))" "v \<notin> set (snd (movedSets g m))"
    by simp_all
  from enforceStep_unmoved [OF s this] have "P1 v = P v" .
  moreover from Cons.IH [OF rest] Cons.prems(2) have "P' v = P1 v" by simp
  ultimately show ?case by simp
qed

lemma shared_not_moved:
  assumes "yesEdge g n = Some ye" and "noEdge g n = Some ne"
    and "v \<in> reachableAvoiding g (edge_to ye) (node_id n)"
    and "v \<in> reachableAvoiding g (edge_to ne) (node_id n)"
  shows "v \<notin> set (fst (movedSets g n)) \<and> v \<notin> set (snd (movedSets g n))"
  using assms by (auto simp: movedSets_def removeShared_eq getSubtree_reachable)

subsection \<open>Rounding\<close>

text \<open>
  The examples take coordinates that are small integers. A rounding that is exact on
  integers, as the rounding of doubles is, computes on them what \<open>noRounding\<close>
  computes.
\<close>

lemma exactOnIntegers_noRounding: "exactOnIntegers noRounding"
  by (simp add: exactOnIntegers_def noRounding_def)

lemma exact_numeral:
  assumes "exactOnIntegers rnd"
  shows "numeral n \<le> (2 ^ 53 :: int) \<Longrightarrow> rnd (numeral n) = numeral n"
    and "numeral n \<le> (2 ^ 53 :: int) \<Longrightarrow> rnd (- numeral n) = - numeral n"
    and "rnd 0 = 0" and "rnd 1 = 1"
proof -
  have e: "\<bar>k\<bar> \<le> 2 ^ 53 \<Longrightarrow> rnd (real_of_int k) = real_of_int k" for k
    using assms by (simp add: exactOnIntegers_def)
  show "numeral n \<le> (2 ^ 53 :: int) \<Longrightarrow> rnd (numeral n) = numeral n"
    using e [of "numeral n"] by simp
  show "numeral n \<le> (2 ^ 53 :: int) \<Longrightarrow> rnd (- numeral n) = - numeral n"
    using e [of "- numeral n"] by simp
  show "rnd 0 = 0" using e [of 0] by simp
  show "rnd 1 = 1" using e [of 1] by simp
qed

lemma overlap_any_rounding:
  assumes "exactOnIntegers rnd"
  shows "enforceYesOnRight rnd overlap_graph overlap_positions TB
           = enforceYesOnRight noRounding overlap_graph overlap_positions TB"
    and "enforceTwice rnd overlap_graph overlap_positions TB
           = enforceTwice noRounding overlap_graph overlap_positions TB"
    and "enforceYesOnRight rnd overlap_graph overlap_sideways LR
           = enforceYesOnRight noRounding overlap_graph overlap_sideways LR"
  by (simp_all add: enforceTwice_def enforceYesOnRight_def overlap_graph_def overlap_positions_def
        overlap_sideways_def label_eval graph_eval step_eval exact_numeral [OF assms])

lemma ghost_any_rounding:
  assumes "exactOnIntegers rnd"
  shows "transformToReactFlow rnd (tableLayout ghost_centres) ghost_graph TB = Inl TypeError"
proof -
  have c: "computeLayout rnd (tableLayout ghost_centres) (graph_nodes ghost_graph)
        (graph_edges ghost_graph) TB = Inl TypeError"
    by (simp add: computeLayout_def enforceYesOnRight_def ghost_graph_def ghost_centres_def
          tableLayout_def getNodeSize_def label_eval graph_eval step_eval
          exact_numeral [OF assms])
  show ?thesis by (simp add: transformToReactFlow_def c)
qed

text \<open>
  Where the coordinates are not integers the rounding shows. In \<open>funnel\<close>, top to
  bottom, with the yes root of condition 2 at x = y and its no root at x = n, y < n:
  the yes root is a convergence node and stays; the no root alone is translated, from
  n to n - (n - y) with both differences rounded. When that number is greater than y
  the run ends with the yes root still left of the no root, and a second run
  translates the no root again.
\<close>

lemma funnel_rounded:
  "enforceYesOnRight rnd funnel_graph (funnel_positions y n) TB
     = Inr (funnel_positions y (if y < n then rnd (n - rnd (n - y)) else n))"
  by (auto simp: enforceYesOnRight_def funnel_graph_def funnel_positions_def
        enforceStep_def removeShared_def yesIsCorrect_def coord_def withCoord_def shift_def
        Let_def label_eval graph_eval fun_eq_iff)

lemma funnel_twice:
  "enforceTwice rnd funnel_graph (funnel_positions y n) TB
     = enforceYesOnRight rnd funnel_graph
         (funnel_positions y (if y < n then rnd (n - rnd (n - y)) else n)) TB"
  by (simp only: enforceTwice_def funnel_rounded sum.case)

subsection \<open>Running the normalization twice\<close>

text \<open>
  C4 fails on \<open>overlap\<close>, top to bottom. All coordinates are small integers, so no
  sum or difference is changed by rounding. The comment on \<open>enforceYesOnRight\<close> promises the yes
  branch on the right of the no branch for every condition node. In the first run the
  step of condition 2 finds its yes root, node 4 (x = 240), right of its no root, node 3
  (x = 120), and moves nothing; the step of condition 3 then swaps its roots, nodes 5
  and 4, and leaves node 4 at x = 0, left of node 3. The run ends with condition 2 on
  the wrong side. A second run therefore moves nodes 3 and 5: running the normalization
  twice does not give the positions of running it once.
\<close>

theorem enforceYesOnRight_twice_differs:
  "map (positionOf (enforceYesOnRight noRounding overlap_graph overlap_positions TB))
       [''1'', ''2'', ''3'', ''4'', ''5'']
     = [Some (150, 0), Some (180, 140), Some (120, 340), Some (0, 540), Some (240, 540)]
   \<and> map (positionOf (enforceTwice noRounding overlap_graph overlap_positions TB))
       [''1'', ''2'', ''3'', ''4'', ''5'']
     = [Some (150, 0), Some (180, 140), Some (0, 340), Some (0, 540), Some (120, 540)]
   \<and> positionOf (enforceTwice noRounding overlap_graph overlap_positions TB) ''3''
     \<noteq> positionOf (enforceYesOnRight noRounding overlap_graph overlap_positions TB) ''3''"
  by (simp add: enforceTwice_def enforceYesOnRight_def overlap_graph_def overlap_positions_def
        positionOf_def label_eval graph_eval step_eval)

subsection \<open>The side of the yes root\<close>

text \<open>
  The test \<open>yesRoot.x >= noRoot.x\<close> accepts a layout in which the two roots are level:
  in \<open>line\<close> the yes root 3 and the no root 4 of condition 2 both have x = 0 and keep it.
\<close>

lemma level_roots_accepted:
  "map_option edge_to (yesEdge line_graph (flowNode ''2'' Condition)) = Some ''3''
   \<and> map_option edge_to (noEdge line_graph (flowNode ''2'' Condition)) = Some ''4''
   \<and> positionOf (enforceYesOnRight noRounding line_graph line_positions TB) ''3'' = Some (0, 340)
   \<and> positionOf (enforceYesOnRight noRounding line_graph line_positions TB) ''4'' = Some (0, 480)"
  by (simp add: enforceYesOnRight_def line_graph_def line_positions_def
        positionOf_def label_eval graph_eval step_eval)

text \<open>
  C5 fails on \<open>overlap\<close>, in both orientations. Condition 2 has exactly two outgoing
  edges, the yes edge to node 4 and the no edge to node 3. Top to bottom, the
  normalization ends with the yes root at x = 0 and the no root at x = 120: the yes
  root is on the left, the side of the no branch. Left to right, on the transposed
  layout, it ends with the yes root at y = 240 and the no root at y = 120: the yes root
  is below. In both the step of condition 3, which runs after the step of condition
  2, moves node 4 and nothing looks at condition 2 again.
\<close>

theorem yes_root_on_no_side:
  "length (outEdges overlap_graph (flowNode ''2'' Condition)) = 2
   \<and> map_option edge_to (yesEdge overlap_graph (flowNode ''2'' Condition)) = Some ''4''
   \<and> map_option edge_to (noEdge overlap_graph (flowNode ''2'' Condition)) = Some ''3''
   \<and> positionOf (enforceYesOnRight noRounding overlap_graph overlap_positions TB) ''4''
       = Some (0, 540)
   \<and> positionOf (enforceYesOnRight noRounding overlap_graph overlap_positions TB) ''3''
       = Some (120, 340)
   \<and> \<not> yesIsCorrect TB (0, 540) (120, 340)
   \<and> positionOf (enforceYesOnRight noRounding overlap_graph overlap_sideways LR) ''4''
       = Some (540, 240)
   \<and> positionOf (enforceYesOnRight noRounding overlap_graph overlap_sideways LR) ''3''
       = Some (340, 120)
   \<and> \<not> yesIsCorrect LR (540, 240) (340, 120)"
  by (simp add: enforceYesOnRight_def overlap_graph_def overlap_positions_def
        overlap_sideways_def positionOf_def label_eval graph_eval step_eval)

subsection \<open>Convergence nodes\<close>

text \<open>
  C6 (amended). A node that is reachable from the yes target and from the no target of a
  condition node, without passing through the condition node, is not translated by
  that condition node's step, whichever branch is on the wrong side; it keeps its
  position through the whole normalization when it is in neither translated set of
  any other node. A node that lies in a translated branch of another condition node
  moves with that branch. No sum is computed for a node that is not translated, so
  this holds for every rounding.
\<close>

theorem convergence_fixed:
  assumes "yesEdge g n = Some ye" and "noEdge g n = Some ne"
    and "v \<in> reachableAvoiding g (edge_to ye) (node_id n)"
    and "v \<in> reachableAvoiding g (edge_to ne) (node_id n)"
    and "\<forall>m \<in> set (graph_nodes g). m \<noteq> n \<longrightarrow>
           v \<notin> set (fst (movedSets g m)) \<and> v \<notin> set (snd (movedSets g m))"
    and "enforceYesOnRight rnd g P d = Inr P'"
  shows "P' v = P v"
proof -
  have "\<forall>m \<in> set (graph_nodes g). v \<notin> set (fst (movedSets g m)) \<and> v \<notin> set (snd (movedSets g m))"
    using assms(5) shared_not_moved [OF assms(1-4)] by auto
  with assms(6) show ?thesis
    by (simp add: enforceYesOnRight_def enforceNodes_unmoved)
qed

text \<open>
  On \<open>diamond\<close>, top to bottom: the normalization moves node 3 and leaves the
  convergence node 5 where it was.
\<close>

theorem convergence_fixed_witness:
  "positionOf (enforceYesOnRight noRounding diamond_graph diamond_positions TB) ''5''
     = diamond_positions ''5''
   \<and> positionOf (enforceYesOnRight noRounding diamond_graph diamond_positions TB) ''3''
       = Some (240, 340)
   \<and> diamond_positions ''3'' = Some (0, 340)"
proof -
  let ?n = "flowNode ''2'' Condition"
  let ?ye = "flowEdge ''2'' ''3'' (Some ''yes'')"
  let ?ne = "flowEdge ''2'' ''4'' (Some ''no'')"
  have h1: "yesEdge diamond_graph ?n = Some ?ye"
    by (simp add: diamond_graph_def label_eval graph_eval)
  have h2: "noEdge diamond_graph ?n = Some ?ne"
    by (simp add: diamond_graph_def label_eval graph_eval)
  have h3: "''5'' \<in> reachableAvoiding diamond_graph (edge_to ?ye) (node_id ?n)"
    unfolding getSubtree_reachable [symmetric]
    by (simp add: diamond_graph_def graph_eval)
  have h4: "''5'' \<in> reachableAvoiding diamond_graph (edge_to ?ne) (node_id ?n)"
    unfolding getSubtree_reachable [symmetric]
    by (simp add: diamond_graph_def graph_eval)
  have h5: "\<forall>m \<in> set (graph_nodes diamond_graph). m \<noteq> ?n \<longrightarrow>
           ''5'' \<notin> set (fst (movedSets diamond_graph m))
           \<and> ''5'' \<notin> set (snd (movedSets diamond_graph m))"
    by (simp add: diamond_graph_def flowNode_def movedSets_def)
  obtain P' where h6: "enforceYesOnRight noRounding diamond_graph diamond_positions TB = Inr P'"
    and v: "P' ''3'' = Some (240, 340)"
    by (simp add: enforceYesOnRight_def diamond_graph_def diamond_positions_def
        label_eval graph_eval step_eval)
  have d3: "diamond_positions ''3'' = Some (0, 340)"
    by (simp add: diamond_positions_def)
  from convergence_fixed [OF h1 h2 h3 h4 h5 h6] v d3
  show ?thesis by (simp add: h6 positionOf_def)
qed

text \<open>
  C6 as stated fails on \<open>nested\<close>: node 6 is reachable from both targets of condition 3
  without passing through it, yet the normalization moves it from x = 140 to x = 310,
  because it lies in the yes branch of condition 2, which is translated.
\<close>

theorem convergence_moved_counterexample:
  "map_option edge_to (yesEdge nested_graph (flowNode ''3'' Condition)) = Some ''4''
   \<and> map_option edge_to (noEdge nested_graph (flowNode ''3'' Condition)) = Some ''5''
   \<and> ''6'' \<in> set (getSubtree nested_graph ''4'' ''3'')
   \<and> ''6'' \<in> set (getSubtree nested_graph ''5'' ''3'')
   \<and> nested_positions ''6'' = Some (140, 680)
   \<and> positionOf (enforceYesOnRight noRounding nested_graph nested_positions TB) ''6''
       = Some (310, 680)"
  by (simp add: enforceYesOnRight_def nested_graph_def nested_positions_def
        positionOf_def label_eval graph_eval step_eval)

subsection \<open>The handle map\<close>








subsection \<open>The layout of a graph whose edges end in nodes\<close>

lemma find_in_set: "find Q xs = Some x \<Longrightarrow> x \<in> set xs"
  by (induction xs) (auto split: if_splits)

lemma yesEdge_in_graph: "yesEdge g n = Some e \<Longrightarrow> e \<in> set (graph_edges g)"
  by (auto simp: yesEdge_def outEdges_def dest: find_in_set)

lemma noEdge_in_graph: "noEdge g n = Some e \<Longrightarrow> e \<in> set (graph_edges g)"
  by (auto simp: noEdge_def outEdges_def dest: find_in_set)

lemma getSubtree_targets:
  "e \<in> set (graph_edges g) \<Longrightarrow> set (getSubtree g (edge_to e) x) \<subseteq> set (map edge_to (graph_edges g))"
  using getSubtree_range [of g "edge_to e" x] by auto

lemma enforceStep_total:
  assumes "set (map edge_to (graph_edges g)) \<subseteq> dom P"
  shows "\<exists>P'. enforceStep rnd g d P n = Inr P' \<and> dom P' = dom P"
proof (cases "node_type n \<noteq> Condition \<or> yesEdge g n = None \<or> noEdge g n = None")
  case True
  then have "enforceStep rnd g d P n = Inr P" by (rule enforceStep_skip)
  then show ?thesis by simp
next
  case False
  then obtain ye ne where c: "node_type n = Condition"
    and ye: "yesEdge g n = Some ye" and ne: "noEdge g n = Some ne" by auto
  have "edge_to ye \<in> dom P" and "edge_to ne \<in> dom P"
    using assms yesEdge_in_graph [OF ye] noEdge_in_graph [OF ne] by auto
  then obtain yr nr where yr: "P (edge_to ye) = Some yr" and nr: "P (edge_to ne) = Some nr"
    by (meson domD)
  show ?thesis
  proof (cases "yesIsCorrect d yr nr")
    case True
    with ye ne yr nr have "enforceStep rnd g d P n = Inr P" by (simp add: enforceStep_correct)
    then show ?thesis by simp
  next
    case False
    have sub: "set (getSubtree g (edge_to ye) (node_id n)) \<subseteq> dom P"
      "set (getSubtree g (edge_to ne) (node_id n)) \<subseteq> dom P"
      using getSubtree_targets [OF yesEdge_in_graph [OF ye]]
            getSubtree_targets [OF noEdge_in_graph [OF ne]] assms by blast+
    then have ok: "(set (getSubtree g (edge_to ye) (node_id n)) - set (getSubtree g (edge_to ne) (node_id n)))
         \<union> (set (getSubtree g (edge_to ne) (node_id n)) - set (getSubtree g (edge_to ye) (node_id n)))
         \<subseteq> dom P" by blast
    show ?thesis
      unfolding enforceStep_active [OF c ye ne yr nr False]
      using ok by (auto simp: dom_def split: if_splits)
  qed
qed

lemma enforceNodes_total:
  "set (map edge_to (graph_edges g)) \<subseteq> dom P
   \<Longrightarrow> \<exists>P'. enforceNodes rnd g d ns P = Inr P' \<and> dom P' = dom P"
proof (induction ns arbitrary: P)
  case Nil
  show ?case by simp
next
  case (Cons n ns)
  from enforceStep_total [OF Cons.prems] obtain P1
    where s: "enforceStep rnd g d P n = Inr P1" and d1: "dom P1 = dom P" by blast
  from Cons.prems d1 have "set (map edge_to (graph_edges g)) \<subseteq> dom P1" by simp
  from Cons.IH [OF this] d1 s show ?case by simp
qed

lemma placed_dom:
  "dom (foldl (\<lambda>P node. P(node_id node \<mapsto> f node)) P0 ns) = dom P0 \<union> node_id ` set ns"
  by (induction ns arbitrary: P0) auto

lemma computeLayout_total:
  assumes "\<forall>e \<in> set es. edge_to e \<in> node_id ` set ns"
  shows "\<exists>P. computeLayout rnd dagre ns es d = Inr P"
proof -
  let ?g = "\<lparr> graph_nodes = ns, graph_edges = es \<rparr>"
  have tot: "\<exists>P'. enforceNodes rnd ?g d ns
                 (foldl (\<lambda>P node. P(node_id node \<mapsto> f node)) Map.empty ns) = Inr P'"
    for f :: "flow_node \<Rightarrow> position"
  proof -
    have "set (map edge_to (graph_edges ?g))
            \<subseteq> dom (foldl (\<lambda>P node. P(node_id node \<mapsto> f node)) Map.empty ns)"
      using assms by (auto simp: placed_dom)
    from enforceNodes_total [OF this] show ?thesis by blast
  qed
  show ?thesis
    unfolding computeLayout_def enforceYesOnRight_def Let_def flow_graph.simps
    by (rule tot)
qed

lemma map_enumerate_snd: "map (\<lambda>ie. f (snd ie)) (enumerate k xs) = map f xs"
  by (induction xs arbitrary: k) auto

text \<open>
  C9 (amended). \<open>getSubtree\<close> is a total function: its loop terminates on every graph,
  cyclic or not, and returns the ids reachable from the start without passing through
  the excluded node. On every graph in which the target of each edge is the id of a
  node, for every result of dagre, every rounding and both orientations,
  \<open>transformToReactFlow\<close> returns a diagram without failing; its edge list has one edge
  per edge of the graph, in order, with the same source, target and label, so the edges
  that close a cycle are kept.
\<close>

theorem layout_returns_all_edges:
  assumes "\<forall>e \<in> set (graph_edges g). edge_to e \<in> node_id ` set (graph_nodes g)"
  shows "set (getSubtree g startId excludeId) = reachableAvoiding g startId excludeId
         \<and> (\<exists>r. transformToReactFlow rnd dagre g d = Inr r
              \<and> map rfe_source (rf_edges r) = map edge_from (graph_edges g)
              \<and> map rfe_target (rf_edges r) = map edge_to (graph_edges g)
              \<and> map rfe_label (rf_edges r) = map edge_label (graph_edges g)
              \<and> map rf_id (rf_nodes r) = map node_id (graph_nodes g))"
proof -
  from computeLayout_total [OF assms] obtain P
    where P: "computeLayout rnd dagre (graph_nodes g) (graph_edges g) d = Inr P" by blast
  have "\<exists>r. transformToReactFlow rnd dagre g d = Inr r
              \<and> map rfe_source (rf_edges r) = map edge_from (graph_edges g)
              \<and> map rfe_target (rf_edges r) = map edge_to (graph_edges g)
              \<and> map rfe_label (rf_edges r) = map edge_label (graph_edges g)
              \<and> map rf_id (rf_nodes r) = map node_id (graph_nodes g)"
    by (simp add: transformToReactFlow_def P Let_def toReactFlowEdge_def comp_def map_enumerate_snd)
  then show ?thesis
    by (simp add: getSubtree_reachable)
qed

text \<open>
  On \<open>retry\<close>, whose edge from node 5 back to node 2 closes a cycle: the search from
  node 2 that avoids node 7 walks the cycle once and stops, and all seven edges are in
  the result.
\<close>

theorem layout_returns_all_edges_witness:
  "getSubtree retry_graph ''2'' ''7'' = [''2'', ''3'', ''4'', ''5'']
   \<and> reachableAvoiding retry_graph ''2'' ''7'' = {''2'', ''3'', ''4'', ''5''}
   \<and> (\<exists>r. transformToReactFlow noRounding (tableLayout retry_centres) retry_graph TB
             = Inr r
         \<and> map rfe_source (rf_edges r) = [''1'', ''7'', ''7'', ''2'', ''3'', ''3'', ''5'']
         \<and> map rfe_target (rf_edges r) = [''7'', ''2'', ''8'', ''3'', ''4'', ''5'', ''2''])"
proof -
  have h: "\<forall>e \<in> set (graph_edges retry_graph). edge_to e \<in> node_id ` set (graph_nodes retry_graph)"
    by (simp add: retry_graph_def flowEdge_def flowNode_def)
  have s: "getSubtree retry_graph ''2'' ''7'' = [''2'', ''3'', ''4'', ''5'']"
    by (simp add: retry_graph_def graph_eval)
  have es: "map edge_from (graph_edges retry_graph) = [''1'', ''7'', ''7'', ''2'', ''3'', ''3'', ''5'']"
    "map edge_to (graph_edges retry_graph) = [''7'', ''2'', ''8'', ''3'', ''4'', ''5'', ''2'']"
    by (simp_all add: retry_graph_def flowEdge_def)
  note main = layout_returns_all_edges [OF h, of "''2''" "''7''" noRounding "tableLayout retry_centres" TB]
  from main have "reachableAvoiding retry_graph ''2'' ''7'' = set (getSubtree retry_graph ''2'' ''7'')"
    by simp
  then have r: "reachableAvoiding retry_graph ''2'' ''7'' = {''2'', ''3'', ''4'', ''5''}"
    by (simp only: s) simp
  from main have "\<exists>r. transformToReactFlow noRounding (tableLayout retry_centres) retry_graph TB = Inr r
         \<and> map rfe_source (rf_edges r) = [''1'', ''7'', ''7'', ''2'', ''3'', ''3'', ''5'']
         \<and> map rfe_target (rf_edges r) = [''7'', ''2'', ''8'', ''3'', ''4'', ''5'', ''2'']"
    unfolding es by (elim conjE exE) (intro exI conjI, assumption+)
  with s r show ?thesis by (intro conjI)
qed

text \<open>
  C9 as stated fails on \<open>ghost\<close>, top to bottom: the edge from node 3 ends in the id 9,
  which is no node and gets no position. Dagre puts the yes root of condition 2, node
  3, left of its no root, node 4; the step of condition 2 translates the yes subtree,
  nodes 3 and 9, and \<open>positions[id][axis]\<close> throws a TypeError at the id 9. The search
  itself has terminated.
\<close>

theorem layout_dangling_target_counterexample:
  "map node_id (graph_nodes ghost_graph) = [''1'', ''2'', ''3'', ''4'']
   \<and> map edge_to (graph_edges ghost_graph) = [''2'', ''3'', ''4'', ''9'']
   \<and> getSubtree ghost_graph ''3'' ''2'' = [''3'', ''9'']
   \<and> computeLayout noRounding (tableLayout ghost_centres) (graph_nodes ghost_graph)
        (graph_edges ghost_graph) TB = Inl TypeError
   \<and> transformToReactFlow noRounding (tableLayout ghost_centres) ghost_graph TB = Inl TypeError"
proof -
  have c: "computeLayout noRounding (tableLayout ghost_centres) (graph_nodes ghost_graph)
        (graph_edges ghost_graph) TB = Inl TypeError"
    by (simp add: computeLayout_def enforceYesOnRight_def ghost_graph_def ghost_centres_def
          tableLayout_def getNodeSize_def label_eval graph_eval step_eval)
  have s: "getSubtree ghost_graph ''3'' ''2'' = [''3'', ''9'']"
    by (simp add: ghost_graph_def graph_eval)
  have ids: "map node_id (graph_nodes ghost_graph) = [''1'', ''2'', ''3'', ''4'']"
    "map edge_to (graph_edges ghost_graph) = [''2'', ''3'', ''4'', ''9'']"
    by (simp_all add: ghost_graph_def flowNode_def flowEdge_def)
  have t: "transformToReactFlow noRounding (tableLayout ghost_centres) ghost_graph TB
      = Inl TypeError"
    by (simp add: transformToReactFlow_def c)
  from ids s c t show ?thesis by (intro conjI)
qed

end
